theory Spec2Isabelle
  imports Main "HOL-Library.Word" "HOL-Library.Multiset"
begin

section \<open>The iterative DNS resolver: data model\<close>

text \<open>
  The resolver is the Go program \<^verbatim>\<open>package main\<close> with the functions
  \<^verbatim>\<open>main\<close>, \<^verbatim>\<open>recursiveLookup\<close>, \<^verbatim>\<open>pickNewRootServer\<close>,
  \<^verbatim>\<open>queryDNS\<close>, \<^verbatim>\<open>getNextServers\<close> and \<^verbatim>\<open>resolveNS\<close>.
  Everything the program does to the outside (dialling, writing, reading, host lookups,
  printing) is recorded, in order, in a trace; everything the outside decides (what the
  network answers, what the host resolver returns, in which order a Go map is ranged
  over, the random number) is an oracle of the environment.
\<close>

subsection \<open>Messages of \<^verbatim>\<open>dnsmessage\<close>\<close>

type_synonym rrtype = "16 word"
type_synonym rrclass = "16 word"

definition TypeA :: rrtype where "TypeA = 1"
definition TypeNS :: rrtype where "TypeNS = 2"
definition TypeAAAA :: rrtype where "TypeAAAA = 28"
definition ClassINET :: rrclass where "ClassINET = 1"

text \<open>\<^verbatim>\<open>AResource.A\<close> is a \<^verbatim>\<open>[4]byte\<close>, \<^verbatim>\<open>AAAAResource.AAAA\<close> a \<^verbatim>\<open>[16]byte\<close>.\<close>

type_synonym ipv4 = "8 word \<times> 8 word \<times> 8 word \<times> 8 word"
type_synonym ipv6 = "8 word list"

text \<open>
  A resource body is an interface value in Go; the program reads it through the type
  assertions \<^verbatim>\<open>Body.(*AResource)\<close>, \<^verbatim>\<open>Body.(*AAAAResource)\<close> and
  \<^verbatim>\<open>Body.(*NSResource)\<close>, each of which panics on a body of another kind.
  Names are kept as the strings that \<^verbatim>\<open>Name.String()\<close> returns.
\<close>

datatype body = AResource ipv4 | AAAAResource ipv6 | NSResource string | OtherResource

record resource =
  rname :: string
  rtype :: rrtype
  rbody :: body

record question =
  qname :: string
  qtype :: rrtype
  qclass :: rrclass

record message =
  msgID :: "16 word"
  recursionDesired :: bool
  authoritative :: bool
  questions :: "question list"
  answers :: "resource list"
  authorities :: "resource list"
  additionals :: "resource list"

subsection \<open>Errors, events and the program state\<close>

datatype error = DialError | PackError | WriteError | ReadError | UnpackError

datatype 'a result = Ok 'a | Err error | Panic

text \<open>The lines the program prints, one constructor per \<^verbatim>\<open>fmt.Print\<close> call.\<close>

datatype line =
    LoadingRootServers
  | RootEntry string string
  | StartingLookup string
  | SendingRequest string string
  | ErrorLine error
  | NoMoreRootServersLine
  | Retrying string string
  | ReceivedAuthoritative
  | AnswerA string ipv4
  | AnswerAAAA string ipv6
  | NoMoreNameServersLine
  | FailedToResolveLine
  | ReferralFor string
  | ServerWithIP string string
  | ServerNoIP string
  | ResolvedServer string string

datatype event =
    Dial string
  | Write string message
  | Read string
  | LookupHost string
  | Print line

text \<open>
  \<^verbatim>\<open>rootServers\<close> is a package-level variable holding a Go map; it is part of the
  state. The literal's entries are kept as an association list with distinct keys.
\<close>

record state =
  rootServers :: "(string \<times> string) list"
  trace :: "event list"

definition emit :: "event \<Rightarrow> state \<Rightarrow> state" where
  "emit ev st = st\<lparr>trace := trace st @ [ev]\<rparr>"

definition initialRootServers :: "(string \<times> string) list" where
  "initialRootServers =
    [(''a.root-servers.net'', ''198.41.0.4''),
     (''b.root-servers.net'', ''192.228.79.201''),
     (''c.root-servers.net'', ''192.33.4.12''),
     (''d.root-servers.net'', ''128.8.10.90''),
     (''e.root-servers.net'', ''192.203.230.10''),
     (''f.root-servers.net'', ''192.5.5.241''),
     (''g.root-servers.net'', ''192.112.36.4''),
     (''h.root-servers.net'', ''128.63.2.53''),
     (''i.root-servers.net'', ''192.36.148.17''),
     (''j.root-servers.net'', ''192.58.128.30''),
     (''k.root-servers.net'', ''193.0.14.129''),
     (''l.root-servers.net'', ''199.7.83.42''),
     (''m.root-servers.net'', ''202.12.27.33'')]"

definition initialState :: state where
  "initialState = \<lparr>rootServers = initialRootServers, trace = []\<rparr>"

subsection \<open>The environment\<close>

text \<open>What one UDP exchange does, as far as \<^verbatim>\<open>queryDNS\<close> observes it.\<close>

datatype exchange = DialFails | WriteFails | ReadFails | Garbled | Reply message

text \<open>
  \<^item> \<open>net env k addr domain\<close>: the fate of the \<open>k\<close>-th exchange of the run (counted from
    0), dialled to \<open>addr\<close> with a question for \<open>domain\<close>;
  \<^item> \<open>lookupHost env k host\<close>: the result of the \<open>k\<close>-th call of \<^verbatim>\<open>net.LookupHost\<close>,
    \<open>None\<close> for a non-nil error;
  \<^item> \<open>rangeOrder env t tbl\<close>: the order in which a \<^verbatim>\<open>range\<close> loop started after \<open>t\<close>
    events visits the entries \<open>tbl\<close> of a map (Go leaves the order unspecified);
  \<^item> \<open>randSource env\<close>: the random source behind \<^verbatim>\<open>rand.Intn\<close>;
  \<^item> \<open>newNameFails\<close>, \<open>packFails\<close>: where the library's \<^verbatim>\<open>NewName\<close> and
    \<^verbatim>\<open>Message.Pack\<close> report an error.
\<close>

record env =
  net :: "nat \<Rightarrow> string \<Rightarrow> string \<Rightarrow> exchange"
  lookupHost :: "nat \<Rightarrow> string \<Rightarrow> string list option"
  rangeOrder :: "nat \<Rightarrow> (string \<times> string) list \<Rightarrow> (string \<times> string) list"
  randSource :: nat
  newNameFails :: "string \<Rightarrow> bool"
  packFails :: "message \<Rightarrow> bool"

text \<open>A \<^verbatim>\<open>range\<close> loop visits every entry of the map exactly once.\<close>

definition rangesProperly :: "env \<Rightarrow> bool" where
  "rangesProperly env = (\<forall>t tbl. mset (rangeOrder env t tbl) = mset tbl)"

fun isDial :: "event \<Rightarrow> bool" where
  "isDial (Dial a) = True"
| "isDial ev = False"

fun isLookup :: "event \<Rightarrow> bool" where
  "isLookup (LookupHost h) = True"
| "isLookup ev = False"

fun isPrint :: "event \<Rightarrow> bool" where
  "isPrint (Print l) = True"
| "isPrint ev = False"

fun isWrite :: "event \<Rightarrow> bool" where
  "isWrite (Write a m) = True"
| "isWrite ev = False"

definition dials :: "event list \<Rightarrow> event list" where
  "dials tr = filter isDial tr"

definition lookups :: "event list \<Rightarrow> event list" where
  "lookups tr = filter isLookup tr"

definition writes :: "event list \<Rightarrow> event list" where
  "writes tr = filter isWrite tr"

section \<open>The functions of the program\<close>

subsection \<open>\<^verbatim>\<open>queryDNS\<close>\<close>

text \<open>
  The steps of \<^verbatim>\<open>queryDNS\<close> in their order: dial, build the message
  (\<^verbatim>\<open>MustNewName\<close> panics where \<^verbatim>\<open>NewName\<close> fails), pack, write, read, unpack.
  The two deadlines and the deferred \<^verbatim>\<open>conn.Close()\<close> are not recorded; nothing
  below depends on them.
\<close>

definition queryMessage :: "string \<Rightarrow> message" where
  "queryMessage domain =
    \<lparr>msgID = 1, recursionDesired = False, authoritative = False,
     questions = [\<lparr>qname = domain, qtype = TypeA, qclass = ClassINET\<rparr>],
     answers = [], authorities = [], additionals = []\<rparr>"

definition queryDNS :: "env \<Rightarrow> string \<Rightarrow> string \<Rightarrow> state \<Rightarrow> message result \<times> state" where
  "queryDNS env domain server st =
    (let addr = server @ '':53'';
         x = net env (length (dials (trace st))) addr domain;
         st1 = emit (Dial addr) st
     in if x = DialFails then (Err DialError, st1)
        else if newNameFails env domain then (Panic, st1)
        else
          let msg = queryMessage domain
          in if packFails env msg then (Err PackError, st1)
             else
               let st2 = emit (Write addr msg) st1
               in if x = WriteFails then (Err WriteError, st2)
                  else
                    let st3 = emit (Read addr) st2
                    in (case x of
                          Reply res \<Rightarrow> (Ok res, st3)
                        | Garbled \<Rightarrow> (Err UnpackError, st3)
                        | _ \<Rightarrow> (Err ReadError, st3)))"

subsection \<open>\<^verbatim>\<open>pickNewRootServer\<close>\<close>

text \<open>Reading a \<^verbatim>\<open>map[string]bool\<close> at a missing key gives \<^verbatim>\<open>false\<close>.\<close>

definition isTried :: "(string \<rightharpoonup> bool) \<Rightarrow> string \<Rightarrow> bool" where
  "isTried tried ip = (case tried ip of None \<Rightarrow> False | Some b \<Rightarrow> b)"

fun firstUntried :: "(string \<times> string) list \<Rightarrow> (string \<rightharpoonup> bool) \<Rightarrow> string \<times> string" where
  "firstUntried [] tried = ('''', '''')"
| "firstUntried ((name, ip) # rest) tried =
     (if \<not> isTried tried ip then (name, ip) else firstUntried rest tried)"

definition pickNewRootServer :: "env \<Rightarrow> (string \<rightharpoonup> bool) \<Rightarrow> state \<Rightarrow> string \<times> string" where
  "pickNewRootServer env tried st =
     firstUntried (rangeOrder env (length (trace st)) (rootServers st)) tried"

subsection \<open>\<^verbatim>\<open>getNextServers\<close>\<close>

text \<open>The first loop: the names of the NS records and the owner of the last one;
  \<open>None\<close> is the panic of the type assertion.\<close>

fun collectNS :: "resource list \<Rightarrow> string list \<Rightarrow> string \<Rightarrow> (string list \<times> string) option" where
  "collectNS [] servers referralDomain = Some (servers, referralDomain)"
| "collectNS (ns # rest) servers referralDomain =
     (if rtype ns = TypeNS then
        (case rbody ns of
           NSResource nsName \<Rightarrow> collectNS rest (servers @ [nsName]) (rname ns)
         | _ \<Rightarrow> None)
      else collectNS rest servers referralDomain)"

text \<open>\<^verbatim>\<open>net.IP(a[:]).String()\<close> of four bytes: dotted decimal.\<close>

definition digit :: "nat \<Rightarrow> char" where
  "digit n = ''0123456789'' ! n"

definition byteString :: "8 word \<Rightarrow> string" where
  "byteString b =
     (let n = unat b
      in if n < 10 then [digit n]
         else if n < 100 then [digit (n div 10), digit (n mod 10)]
         else [digit (n div 100), digit (n div 10 mod 10), digit (n mod 10)])"

fun ipString :: "ipv4 \<Rightarrow> string" where
  "ipString (a, b, c, d) =
     byteString a @ ''.'' @ byteString b @ ''.'' @ byteString c @ ''.'' @ byteString d"

text \<open>The second loop: the glue map \<^verbatim>\<open>resolvedIPs\<close>.\<close>

fun collectGlue :: "resource list \<Rightarrow> (string \<rightharpoonup> string) \<Rightarrow> (string \<rightharpoonup> string) option" where
  "collectGlue [] resolvedIPs = Some resolvedIPs"
| "collectGlue (extra # rest) resolvedIPs =
     (if rtype extra = TypeA then
        (case rbody extra of
           AResource a \<Rightarrow> collectGlue rest (resolvedIPs(rname extra \<mapsto> ipString a))
         | _ \<Rightarrow> None)
      else collectGlue rest resolvedIPs)"

definition serverLine :: "(string \<rightharpoonup> string) \<Rightarrow> string \<Rightarrow> event" where
  "serverLine resolvedIPs ns =
     (case resolvedIPs ns of
        Some ip \<Rightarrow> Print (ServerWithIP ns ip)
      | None \<Rightarrow> Print (ServerNoIP ns))"

definition getNextServers :: "message \<Rightarrow> state \<Rightarrow> string list option \<times> state" where
  "getNextServers res st =
     (case collectNS (authorities res) [] '''' of
        None \<Rightarrow> (None, st)
      | Some (servers, referralDomain0) \<Rightarrow>
          let referralDomain =
                (if referralDomain0 = '''' then ''(unknown domain)'' else referralDomain0)
          in (case collectGlue (additionals res) Map.empty of
                None \<Rightarrow> (None, st)
              | Some resolvedIPs \<Rightarrow>
                  (Some servers,
                   st\<lparr>trace := trace st @ [Print (ReferralFor referralDomain)]
                                 @ map (serverLine resolvedIPs) servers\<rparr>)))"

subsection \<open>\<^verbatim>\<open>resolveNS\<close>\<close>

definition trimDot :: "string \<Rightarrow> string" where
  "trimDot s = (if s \<noteq> [] \<and> last s = CHR ''.'' then butlast s else s)"

fun resolveNS :: "env \<Rightarrow> string list \<Rightarrow> state \<Rightarrow> (string \<times> string) \<times> state" where
  "resolveNS env [] st = (('''', ''''), st)"
| "resolveNS env (ns # rest) st =
     (let host = trimDot ns;
          r = lookupHost env (length (lookups (trace st))) host;
          st1 = emit (LookupHost host) st
      in case r of
           Some (ip0 # others) \<Rightarrow> ((ns, ip0), emit (Print (ResolvedServer ns ip0)) st1)
         | _ \<Rightarrow> resolveNS env rest st1)"

subsection \<open>\<^verbatim>\<open>recursiveLookup\<close>\<close>

text \<open>The loop over \<^verbatim>\<open>res.Answers\<close> of an authoritative response; \<open>False\<close> is the
  panic of a type assertion.\<close>

fun printAnswers :: "string \<Rightarrow> resource list \<Rightarrow> state \<Rightarrow> bool \<times> state" where
  "printAnswers domain [] st = (True, st)"
| "printAnswers domain (answer # rest) st =
     (if rtype answer = TypeA then
        (case rbody answer of
           AResource ip \<Rightarrow> printAnswers domain rest (emit (Print (AnswerA domain ip)) st)
         | _ \<Rightarrow> (False, st))
      else if rtype answer = TypeAAAA then
        (case rbody answer of
           AAAAResource ip \<Rightarrow> printAnswers domain rest (emit (Print (AnswerAAAA domain ip)) st)
         | _ \<Rightarrow> (False, st))
      else printAnswers domain rest st)"

text \<open>The local variables of the loop, and the ways the function ends.\<close>

record vars =
  serverName :: string
  serverIP :: string
  triedServers :: "string \<rightharpoonup> bool"

datatype outcome =
    Answered
  | NoMoreRootServers
  | NoMoreNameServers
  | FailedToResolve
  | Crashed

text \<open>The states of the specification: \<open>Authoritative\<close> is \<open>Answered\<close>; \<open>Exhausted\<close> is
  any of the three returns without an answer.\<close>

fun Exhausted :: "outcome \<Rightarrow> bool" where
  "Exhausted NoMoreRootServers = True"
| "Exhausted NoMoreNameServers = True"
| "Exhausted FailedToResolve = True"
| "Exhausted r = False"

datatype flow = Continue vars state | Return outcome state

text \<open>One pass through the body of the \<^verbatim>\<open>for\<close> loop.\<close>

definition iteration :: "env \<Rightarrow> string \<Rightarrow> vars \<Rightarrow> state \<Rightarrow> flow" where
  "iteration env domain v st =
    (let tried = (triedServers v)(serverIP v \<mapsto> True);
         st1 = emit (Print (SendingRequest (serverName v) (serverIP v))) st
     in case queryDNS env domain (serverIP v) st1 of
          (Panic, st2) \<Rightarrow> Return Crashed st2
        | (Err e, st2) \<Rightarrow>
            let st3 = emit (Print (ErrorLine e)) st2;
                (newServerName, newServerIP) = pickNewRootServer env tried st3
            in if newServerIP = '''' then Return NoMoreRootServers (emit (Print NoMoreRootServersLine) st3)
               else Continue \<lparr>serverName = newServerName, serverIP = newServerIP, triedServers = tried\<rparr>
                      (emit (Print (Retrying newServerName newServerIP)) st3)
        | (Ok res, st2) \<Rightarrow>
            if authoritative res then
              (case printAnswers domain (answers res) (emit (Print ReceivedAuthoritative) st2) of
                 (True, st3) \<Rightarrow> Return Answered st3
               | (False, st3) \<Rightarrow> Return Crashed st3)
            else
              (case getNextServers res st2 of
                 (None, st3) \<Rightarrow> Return Crashed st3
               | (Some nextServers, st3) \<Rightarrow>
                   if length nextServers = 0 then Return NoMoreNameServers (emit (Print NoMoreNameServersLine) st3)
                   else
                     (case resolveNS env nextServers st3 of
                        ((newName, newIP), st4) \<Rightarrow>
                          if newIP = '''' then Return FailedToResolve (emit (Print FailedToResolveLine) st4)
                          else Continue \<lparr>serverName = newName, serverIP = newIP, triedServers = tried\<rparr> st4)))"

text \<open>The \<^verbatim>\<open>for\<close> loop has no exit condition of its own: not returning is \<open>None\<close>.\<close>

partial_function (option) lookupLoop :: "env \<Rightarrow> string \<Rightarrow> vars \<Rightarrow> state \<Rightarrow> (outcome \<times> state) option" where
  "lookupLoop env domain v st =
     (case iteration env domain v st of
        Return r st' \<Rightarrow> Some (r, st')
      | Continue v' st' \<Rightarrow> lookupLoop env domain v' st')"

definition recursiveLookup :: "env \<Rightarrow> string \<Rightarrow> string \<Rightarrow> string \<Rightarrow> state \<Rightarrow> (outcome \<times> state) option" where
  "recursiveLookup env domain firstServerName firstServerIP st =
     lookupLoop env domain
       \<lparr>serverName = firstServerName, serverIP = firstServerIP, triedServers = Map.empty\<rparr> st"

subsection \<open>\<^verbatim>\<open>main\<close>\<close>

text \<open>\<^verbatim>\<open>rootServers[rootName]\<close>: the zero value \<^verbatim>\<open>""\<close> at a missing key.\<close>

definition mapIndex :: "(string \<times> string) list \<Rightarrow> string \<Rightarrow> string" where
  "mapIndex tbl k = (case map_of tbl k of None \<Rightarrow> '''' | Some v \<Rightarrow> v)"

text \<open>\<^verbatim>\<open>rand.Intn(n)\<close> panics for \<open>n \<le> 0\<close> and returns a number below \<open>n\<close> otherwise.\<close>

definition main :: "env \<Rightarrow> state \<Rightarrow> (outcome \<times> state) option" where
  "main env st =
    (let domain = ''example.com.'';
         st1 = emit (Print LoadingRootServers) st;
         st2 = fold (\<lambda>(name, ip). emit (Print (RootEntry name ip)))
                 (rangeOrder env (length (trace st1)) (rootServers st1)) st1;
         rootNames = map fst (rangeOrder env (length (trace st2)) (rootServers st2))
     in if length rootNames = 0 then Some (Crashed, st2)
        else
          let rootName = rootNames ! (randSource env mod length rootNames);
              st3 = emit (Print (StartingLookup domain)) st2
          in recursiveLookup env domain rootName (mapIndex (rootServers st3) rootName) st3)"

section \<open>Notions used to state the properties\<close>

text \<open>
  What \<^verbatim>\<open>Message.Unpack\<close> guarantees of every resource it returns: the body of a
  record of type A, AAAA or NS is of the matching kind (the library chooses the body's
  kind from the header's type). On such records no type assertion of the program panics.
\<close>

fun wellTyped :: "resource \<Rightarrow> bool" where
  "wellTyped r =
     (if rtype r = TypeA then (case rbody r of AResource a \<Rightarrow> True | _ \<Rightarrow> False)
      else if rtype r = TypeAAAA then (case rbody r of AAAAResource a \<Rightarrow> True | _ \<Rightarrow> False)
      else if rtype r = TypeNS then (case rbody r of NSResource n \<Rightarrow> True | _ \<Rightarrow> False)
      else True)"

text \<open>The lines an answer record contributes to the output of an authoritative response.\<close>

fun addressLines :: "string \<Rightarrow> resource \<Rightarrow> event list" where
  "addressLines domain r =
     (case rbody r of
        AResource ip \<Rightarrow> (if rtype r = TypeA then [Print (AnswerA domain ip)] else [])
      | AAAAResource ip \<Rightarrow> (if rtype r = TypeAAAA then [Print (AnswerAAAA domain ip)] else [])
      | _ \<Rightarrow> [])"

definition isAddressType :: "resource \<Rightarrow> bool" where
  "isAddressType r = (rtype r = TypeA \<or> rtype r = TypeAAAA)"

text \<open>A host lookup succeeds, for \<^verbatim>\<open>resolveNS\<close>, when it returns no error and at least
  one address; \<open>k\<close> is the number of host lookups made before it.\<close>

definition lookupSucceeds :: "env \<Rightarrow> nat \<Rightarrow> string \<Rightarrow> bool" where
  "lookupSucceeds env k ns =
     (case lookupHost env k (trimDot ns) of Some (a # others) \<Rightarrow> True | _ \<Rightarrow> False)"

definition firstAddress :: "env \<Rightarrow> nat \<Rightarrow> string \<Rightarrow> string" where
  "firstAddress env k ns =
     (case lookupHost env k (trimDot ns) of Some (a # others) \<Rightarrow> a | _ \<Rightarrow> '''')"

definition lookupEvents :: "string list \<Rightarrow> event list" where
  "lookupEvents servers = map (\<lambda>ns. LookupHost (trimDot ns)) servers"

text \<open>The names of the NS records of an authority section, in order.\<close>

fun nsTargets :: "resource list \<Rightarrow> string list" where
  "nsTargets [] = []"
| "nsTargets (r # rs) =
     (if rtype r = TypeNS then
        (case rbody r of NSResource n \<Rightarrow> n # nsTargets rs | _ \<Rightarrow> nsTargets rs)
      else nsTargets rs)"

text \<open>The state a pass through the loop body leaves, and the loop run for at most \<open>n\<close>
  iterations: \<open>Return\<close> when the function has returned by then, \<open>Continue\<close> with the
  variables and the state before the next iteration otherwise.\<close>

fun flowState :: "flow \<Rightarrow> state" where
  "flowState (Continue v st) = st"
| "flowState (Return r st) = st"

fun runFor :: "nat \<Rightarrow> env \<Rightarrow> string \<Rightarrow> vars \<Rightarrow> state \<Rightarrow> flow" where
  "runFor 0 env domain v st = Continue v st"
| "runFor (Suc n) env domain v st =
     (case iteration env domain v st of
        Return r st' \<Rightarrow> Return r st'
      | Continue v' st' \<Rightarrow> runFor n env domain v' st')"

text \<open>The root-server addresses that are neither marked as tried nor the current server's:
  those a fallback can still pick after the current iteration.\<close>

definition untried :: "vars \<Rightarrow> state \<Rightarrow> string set" where
  "untried v st =
     {ip \<in> snd ` set (rootServers st). \<not> isTried (triedServers v) ip \<and> ip \<noteq> serverIP v}"

text \<open>The dial of \<^verbatim>\<open>queryDNS\<close> to a server address: UDP port 53.\<close>

definition dialTo :: "string \<Rightarrow> event" where
  "dialTo ip = Dial (ip @ '':53'')"

text \<open>
  The query that the run from \<open>v0\<close>, \<open>st0\<close> makes in its iteration number \<open>i\<close>
  (counted from 0) is answered by a referral: the run has not returned before, and the
  network answers the exchange with the current server by a non-authoritative response.
\<close>

definition referralAt :: "env \<Rightarrow> string \<Rightarrow> vars \<Rightarrow> state \<Rightarrow> nat \<Rightarrow> bool" where
  "referralAt env domain v0 st0 i =
     (case runFor i env domain v0 st0 of
        Continue v st \<Rightarrow>
          (case net env (length (dials (trace st))) (serverIP v @ '':53'') domain of
             Reply res \<Rightarrow> \<not> authoritative res
           | _ \<Rightarrow> False)
      | Return r st \<Rightarrow> False)"

section \<open>Concrete scenarios\<close>

definition nsRecord :: "string \<Rightarrow> string \<Rightarrow> resource" where
  "nsRecord owner target = \<lparr>rname = owner, rtype = TypeNS, rbody = NSResource target\<rparr>"

definition aRecord :: "string \<Rightarrow> ipv4 \<Rightarrow> resource" where
  "aRecord owner ip = \<lparr>rname = owner, rtype = TypeA, rbody = AResource ip\<rparr>"

definition emptyReply :: message where
  "emptyReply = \<lparr>msgID = 1, recursionDesired = False, authoritative = False,
     questions = [], answers = [], authorities = [], additionals = []\<rparr>"

text \<open>An environment in which nothing answers: every dial fails, no host resolves, a map
  is ranged over in the order of its literal.\<close>

definition quietEnv :: env where
  "quietEnv = \<lparr>net = (\<lambda>k addr domain. DialFails), lookupHost = (\<lambda>k host. None),
     rangeOrder = (\<lambda>t tbl. tbl), randSource = 0,
     newNameFails = (\<lambda>name. False), packFails = (\<lambda>msg. False)\<rparr>"

definition rootA :: vars where
  "rootA = \<lparr>serverName = ''a.root-servers.net'', serverIP = ''198.41.0.4'',
            triedServers = Map.empty\<rparr>"

text \<open>An authoritative answer: a CNAME-typed record (type 5) and one A record.\<close>

definition answerReply :: message where
  "answerReply = emptyReply\<lparr>authoritative := True,
     answers := [\<lparr>rname = ''example.com.'', rtype = 5, rbody = OtherResource\<rparr>,
                 aRecord ''example.com.'' (93, 184, 216, 34)],
     authorities := [nsRecord ''example.com.'' ''a.iana-servers.net.'']\<rparr>"

definition answeringEnv :: env where
  "answeringEnv = quietEnv\<lparr>net := (\<lambda>k addr domain. Reply answerReply)\<rparr>"

text \<open>A referral that every server gives and that always resolves to the same address.\<close>

definition referralReply :: message where
  "referralReply = emptyReply\<lparr>authorities := [nsRecord ''example.com.'' ''ns1.example.com.'']\<rparr>"

definition loopingEnv :: env where
  "loopingEnv = quietEnv\<lparr>net := (\<lambda>k addr domain. Reply referralReply),
                          lookupHost := (\<lambda>k host. Some [''10.0.0.1''])\<rparr>"

text \<open>A non-authoritative response with an SOA-typed authority record (type 6) only.\<close>

definition noReferralReply :: message where
  "noReferralReply = emptyReply\<lparr>
     authorities := [\<lparr>rname = ''com.'', rtype = 6, rbody = OtherResource\<rparr>],
     additionals := [aRecord ''ns1.example.com.'' (10, 0, 0, 1)]\<rparr>"

definition noReferralEnv :: env where
  "noReferralEnv = quietEnv\<lparr>net := (\<lambda>k addr domain. Reply noReferralReply)\<rparr>"

text \<open>A host resolver that knows one name only.\<close>

definition hostsEnv :: env where
  "hostsEnv = quietEnv\<lparr>lookupHost := (\<lambda>k host.
      if host = ''ns2.example.com'' then Some [''192.0.2.2'', ''192.0.2.3''] else None)\<rparr>"

text \<open>An authoritative answer that holds a CNAME-typed record and no address.\<close>

definition aliasReply :: message where
  "aliasReply = emptyReply\<lparr>authoritative := True,
     answers := [\<lparr>rname = ''www.example.com.'', rtype = 5, rbody = OtherResource\<rparr>]\<rparr>"

definition aliasEnv :: env where
  "aliasEnv = quietEnv\<lparr>net := (\<lambda>k addr domain. Reply aliasReply)\<rparr>"

text \<open>A referral to two nameservers, the first with a glue address, the second without;
  the host resolver resolves the second name only.\<close>

definition glueReply :: message where
  "glueReply = emptyReply\<lparr>
     authorities := [nsRecord ''example.com.'' ''ns1.example.com.'',
                     nsRecord ''example.com.'' ''ns2.example.com.''],
     additionals := [aRecord ''ns1.example.com.'' (10, 0, 0, 1)]\<rparr>"

definition glueEnv :: env where
  "glueEnv = hostsEnv\<lparr>net := (\<lambda>k addr domain. Reply glueReply)\<rparr>"

text \<open>A network keyed by address: the server at \<open>10.0.0.1\<close> answers authoritatively,
  every other server refers to \<open>ns1.example.com.\<close>, which resolves to \<open>10.0.0.1\<close>.\<close>

definition delegatingEnv :: env where
  "delegatingEnv = quietEnv\<lparr>
     net := (\<lambda>k addr domain.
               if addr = ''10.0.0.1:53'' then Reply answerReply else Reply referralReply),
     lookupHost := (\<lambda>k host. Some [''10.0.0.1''])\<rparr>"

text \<open>The variables and the state after the first iteration on that network, started at
  the first root server.\<close>

definition afterReferral :: state where
  "afterReferral =
     \<lparr>rootServers = initialRootServers,
      trace = [Print (SendingRequest ''a.root-servers.net'' ''198.41.0.4''),
               Dial ''198.41.0.4:53'', Write ''198.41.0.4:53'' (queryMessage ''example.com.''),
               Read ''198.41.0.4:53'', Print (ReferralFor ''example.com.''),
               Print (ServerNoIP ''ns1.example.com.''), LookupHost ''ns1.example.com'',
               Print (ResolvedServer ''ns1.example.com.'' ''10.0.0.1'')]\<rparr>"

definition atNS1 :: vars where
  "atNS1 = \<lparr>serverName = ''ns1.example.com.'', serverIP = ''10.0.0.1'',
            triedServers = [''198.41.0.4'' \<mapsto> True]\<rparr>"

section \<open>Basic facts\<close>

lemma trace_emit [simp]: "trace (emit ev st) = trace st @ [ev]"
  by (simp add: emit_def)

lemma rootServers_emit [simp]: "rootServers (emit ev st) = rootServers st"
  by (simp add: emit_def)

lemma types_distinct [simp]:
  "TypeA \<noteq> TypeNS" "TypeNS \<noteq> TypeA" "TypeA \<noteq> TypeAAAA" "TypeAAAA \<noteq> TypeA"
  "TypeNS \<noteq> TypeAAAA" "TypeAAAA \<noteq> TypeNS"
  by (simp_all add: TypeA_def TypeNS_def TypeAAAA_def)

lemma dials_append [simp]: "dials (xs @ ys) = dials xs @ dials ys"
  by (simp add: dials_def)

lemma lookups_append [simp]: "lookups (xs @ ys) = lookups xs @ lookups ys"
  by (simp add: lookups_def)

lemma dials_Cons [simp]:
  "dials [] = []" "dials (Dial a # tr) = Dial a # dials tr" "dials (Write a m # tr) = dials tr"
  "dials (Read a # tr) = dials tr" "dials (LookupHost h # tr) = dials tr"
  "dials (Print l # tr) = dials tr"
  by (simp_all add: dials_def)

lemma lookups_Cons [simp]:
  "lookups [] = []" "lookups (Dial a # tr) = lookups tr" "lookups (Write a m # tr) = lookups tr"
  "lookups (Read a # tr) = lookups tr" "lookups (LookupHost h # tr) = LookupHost h # lookups tr"
  "lookups (Print l # tr) = lookups tr"
  by (simp_all add: lookups_def)

lemma writes_append [simp]: "writes (xs @ ys) = writes xs @ writes ys"
  by (simp add: writes_def)

lemma writes_Cons [simp]:
  "writes [] = []" "writes (Dial a # tr) = writes tr" "writes (Write a m # tr) = Write a m # writes tr"
  "writes (Read a # tr) = writes tr" "writes (LookupHost h # tr) = writes tr"
  "writes (Print l # tr) = writes tr"
  by (simp_all add: writes_def)

lemma writes_mem: "Write a m \<in> set (writes tr) \<longleftrightarrow> Write a m \<in> set tr"
  by (simp add: writes_def)

text \<open>The definitions that evaluate the program on a concrete input.\<close>

lemmas eval_defs = queryDNS_def iteration_def getNextServers_def pickNewRootServer_def
  emit_def dials_def lookups_def Let_def trimDot_def isTried_def serverLine_def
  TypeA_def TypeNS_def TypeAAAA_def

subsection \<open>The branches of one iteration\<close>

lemma iteration_Panic:
  "queryDNS env domain (serverIP v)
     (emit (Print (SendingRequest (serverName v) (serverIP v))) st) = (Panic, st2) \<Longrightarrow>
   iteration env domain v st = Return Crashed st2"
  by (simp add: iteration_def)

lemma iteration_Err:
  "queryDNS env domain (serverIP v)
     (emit (Print (SendingRequest (serverName v) (serverIP v))) st) = (Err e, st2) \<Longrightarrow>
   iteration env domain v st =
     (let tried = (triedServers v)(serverIP v \<mapsto> True);
          st3 = emit (Print (ErrorLine e)) st2;
          p = pickNewRootServer env tried st3
      in if snd p = '''' then Return NoMoreRootServers (emit (Print NoMoreRootServersLine) st3)
         else Continue \<lparr>serverName = fst p, serverIP = snd p, triedServers = tried\<rparr>
                (emit (Print (Retrying (fst p) (snd p))) st3))"
  by (simp add: iteration_def Let_def split: prod.splits)

lemma iteration_authoritative:
  "queryDNS env domain (serverIP v)
     (emit (Print (SendingRequest (serverName v) (serverIP v))) st) = (Ok res, st2) \<Longrightarrow>
   authoritative res \<Longrightarrow>
   iteration env domain v st =
     (let r = printAnswers domain (answers res) (emit (Print ReceivedAuthoritative) st2)
      in Return (if fst r then Answered else Crashed) (snd r))"
  by (simp add: iteration_def Let_def split: prod.splits bool.splits)

lemma iteration_referral:
  "queryDNS env domain (serverIP v)
     (emit (Print (SendingRequest (serverName v) (serverIP v))) st) = (Ok res, st2) \<Longrightarrow>
   \<not> authoritative res \<Longrightarrow>
   iteration env domain v st =
     (case getNextServers res st2 of
        (None, st3) \<Rightarrow> Return Crashed st3
      | (Some nextServers, st3) \<Rightarrow>
          if nextServers = [] then Return NoMoreNameServers (emit (Print NoMoreNameServersLine) st3)
          else
            let r = resolveNS env nextServers st3
            in if snd (fst r) = '''' then Return FailedToResolve (emit (Print FailedToResolveLine) (snd r))
               else Continue \<lparr>serverName = fst (fst r), serverIP = snd (fst r),
                      triedServers = (triedServers v)(serverIP v \<mapsto> True)\<rparr> (snd r))"
  by (simp add: iteration_def Let_def split: prod.splits option.splits)

lemma iteration_tried:
  "iteration env domain v st = Continue v' st' \<Longrightarrow>
   triedServers v' = (triedServers v)(serverIP v \<mapsto> True)"
  by (auto simp add: iteration_def Let_def
        split: prod.splits option.splits result.splits if_splits bool.splits)

lemma lookupLoop_Return:
  "iteration env domain v st = Return r st' \<Longrightarrow> lookupLoop env domain v st = Some (r, st')"
  by (subst lookupLoop.simps) simp

lemma lookupLoop_Continue:
  "iteration env domain v st = Continue v' st' \<Longrightarrow>
   lookupLoop env domain v st = lookupLoop env domain v' st'"
  by (subst lookupLoop.simps) simp

subsection \<open>The loops over resource records\<close>

lemma printAnswers_lines:
  "list_all wellTyped rs \<Longrightarrow>
   printAnswers domain rs st =
     (True, st\<lparr>trace := trace st @ concat (map (addressLines domain) rs)\<rparr>)"
  by (induction domain rs st rule: printAnswers.induct) (auto simp: emit_def split: body.splits)

lemma printAnswers_skip:
  "\<forall>r \<in> set rs. \<not> isAddressType r \<Longrightarrow> printAnswers domain rs st = (True, st)"
  by (induction domain rs st rule: printAnswers.induct) (auto simp: isAddressType_def)

lemma printAnswers_filter:
  "printAnswers domain rs st = printAnswers domain (filter isAddressType rs) st"
  by (induction domain rs st rule: printAnswers.induct)
     (auto simp: isAddressType_def split: body.splits)

lemma collectNS_none:
  "\<forall>r \<in> set rs. rtype r \<noteq> TypeNS \<Longrightarrow> collectNS rs servers d = Some (servers, d)"
  by (induction rs servers d rule: collectNS.induct) auto

lemma collectGlue_wellTyped:
  "list_all wellTyped rs \<Longrightarrow> \<exists>g. collectGlue rs m = Some g"
  by (induction rs m rule: collectGlue.induct) (auto split: body.splits)

subsection \<open>\<^verbatim>\<open>resolveNS\<close>, candidate by candidate\<close>

lemma lookups_lookupEvents [simp]: "lookups (lookupEvents xs) = lookupEvents xs"
  by (induction xs) (simp_all add: lookupEvents_def lookups_def)

lemma length_lookupEvents [simp]: "length (lookupEvents xs) = length xs"
  by (simp add: lookupEvents_def)

lemma lookupEvents_Cons: "lookupEvents (x # xs) = LookupHost (trimDot x) # lookupEvents xs"
  by (simp add: lookupEvents_def)

lemma lookupEvents_snoc: "lookupEvents (xs @ [x]) = lookupEvents xs @ [LookupHost (trimDot x)]"
  by (simp add: lookupEvents_def)

lemma resolveNS_fail_step:
  "\<not> lookupSucceeds env (length (lookups (trace st))) ns \<Longrightarrow>
   resolveNS env (ns # rest) st = resolveNS env rest (emit (LookupHost (trimDot ns)) st)"
  by (simp add: lookupSucceeds_def Let_def split: option.splits list.splits)

lemma resolveNS_success_step:
  "lookupSucceeds env (length (lookups (trace st))) ns \<Longrightarrow>
   resolveNS env (ns # rest) st =
     ((ns, firstAddress env (length (lookups (trace st))) ns),
      st\<lparr>trace := trace st @ [LookupHost (trimDot ns),
             Print (ResolvedServer ns (firstAddress env (length (lookups (trace st))) ns))]\<rparr>)"
  by (simp add: lookupSucceeds_def firstAddress_def Let_def emit_def
        split: option.splits list.splits)

declare resolveNS.simps(2) [simp del]

lemma failures_tail:
  assumes "\<forall>i<length (ns # rest). \<not> lookupSucceeds env (k + i) ((ns # rest) ! i)"
  shows "\<not> lookupSucceeds env k ns"
    and "\<forall>i<length rest. \<not> lookupSucceeds env (Suc k + i) (rest ! i)"
proof -
  from assms have "\<not> lookupSucceeds env (k + 0) ((ns # rest) ! 0)" by blast
  then show "\<not> lookupSucceeds env k ns" by simp
  show "\<forall>i<length rest. \<not> lookupSucceeds env (Suc k + i) (rest ! i)"
  proof (intro allI impI)
    fix i assume "i < length rest"
    then have "Suc i < length (ns # rest)" by simp
    with assms have "\<not> lookupSucceeds env (k + Suc i) ((ns # rest) ! Suc i)" by blast
    then show "\<not> lookupSucceeds env (Suc k + i) (rest ! i)" by simp
  qed
qed

lemma resolveNS_all_fail:
  "\<forall>i<length servers. \<not> lookupSucceeds env (length (lookups (trace st)) + i) (servers ! i) \<Longrightarrow>
   resolveNS env servers st = (('''', ''''), st\<lparr>trace := trace st @ lookupEvents servers\<rparr>)"
proof (induction servers arbitrary: st)
  case Nil
  then show ?case by (simp add: lookupEvents_def)
next
  case (Cons ns rest)
  note f = failures_tail [OF Cons.prems]
  from f(2) have "\<forall>i<length rest. \<not> lookupSucceeds env
           (length (lookups (trace (emit (LookupHost (trimDot ns)) st))) + i) (rest ! i)"
    by simp
  from Cons.IH [OF this] show ?case
    by (simp add: resolveNS_fail_step [OF f(1)] lookupEvents_Cons emit_def)
qed

lemma resolveNS_after_failures:
  "\<forall>i<length pre. \<not> lookupSucceeds env (length (lookups (trace st)) + i) (pre ! i) \<Longrightarrow>
   resolveNS env (pre @ rest) st = resolveNS env rest (st\<lparr>trace := trace st @ lookupEvents pre\<rparr>)"
proof (induction pre arbitrary: st)
  case Nil
  then show ?case by (simp add: lookupEvents_def)
next
  case (Cons ns pre)
  note f = failures_tail [OF Cons.prems]
  from f(2) have "\<forall>i<length pre. \<not> lookupSucceeds env
           (length (lookups (trace (emit (LookupHost (trimDot ns)) st))) + i) (pre ! i)"
    by simp
  from Cons.IH [OF this] show ?case
    by (simp add: resolveNS_fail_step [OF f(1)] lookupEvents_Cons emit_def)
qed

lemma resolveNS_empty_iff:
  assumes ne: "\<forall>k h a others. lookupHost env k h = Some (a # others) \<longrightarrow> a \<noteq> ''''"
  shows "(snd (fst (resolveNS env servers st)) = '''') =
         (\<forall>i<length servers. \<not> lookupSucceeds env (length (lookups (trace st)) + i) (servers ! i))"
proof (induction servers arbitrary: st)
  case Nil
  then show ?case by simp
next
  case (Cons ns rest)
  show ?case
  proof (cases "lookupSucceeds env (length (lookups (trace st))) ns")
    case True
    then have "firstAddress env (length (lookups (trace st))) ns \<noteq> ''''"
      using ne by (auto simp: lookupSucceeds_def firstAddress_def split: option.splits list.splits)
    moreover have "\<not> (\<forall>i<length (ns # rest).
        \<not> lookupSucceeds env (length (lookups (trace st)) + i) ((ns # rest) ! i))"
      using True by (auto intro: exI [of _ 0])
    ultimately show ?thesis
      by (simp add: resolveNS_success_step [OF True])
  next
    case False
    have "(\<forall>i<length (ns # rest).
        \<not> lookupSucceeds env (length (lookups (trace st)) + i) ((ns # rest) ! i)) =
        (\<forall>i<length rest. \<not> lookupSucceeds env (length (lookups (trace st)) + Suc i) (rest ! i))"
      using False by (auto simp: less_Suc_eq_0_disj)
    then show ?thesis
      using Cons.IH [of "emit (LookupHost (trimDot ns)) st"]
      by (simp add: resolveNS_fail_step [OF False])
  qed
qed

lemma collectNS_targets:
  "collectNS rs acc d = Some (servers, d') \<Longrightarrow> servers = acc @ nsTargets rs"
  by (induction rs acc d rule: collectNS.induct) (auto split: if_splits body.splits)

lemma getNextServers_Some:
  assumes "getNextServers res st = (Some servers, st')"
  shows "servers = nsTargets (authorities res)"
    and "rootServers st' = rootServers st"
    and "lookups (trace st') = lookups (trace st)"
    and "dials (trace st') = dials (trace st)"
  using assms collectNS_targets [of "authorities res" "[]" "''''" servers]
  by (auto simp: getNextServers_def Let_def lookups_def dials_def serverLine_def comp_def
        split: option.splits prod.splits)

lemma resolveNS_lookups_only:
  "lookups (trace st) = lookups (trace st') \<Longrightarrow>
   fst (resolveNS env xs st) = fst (resolveNS env xs st')
   \<and> lookups (trace (snd (resolveNS env xs st))) = lookups (trace (snd (resolveNS env xs st')))"
proof (induction xs arbitrary: st st')
  case Nil
  then show ?case by simp
next
  case (Cons ns rest)
  have e: "lookups (trace (emit (LookupHost (trimDot ns)) st)) =
           lookups (trace (emit (LookupHost (trimDot ns)) st'))"
    using Cons.prems by simp
  show ?case
  proof (cases "lookupSucceeds env (length (lookups (trace st))) ns")
    case True
    then have "lookupSucceeds env (length (lookups (trace st'))) ns"
      using Cons.prems by simp
    with True show ?thesis
      using Cons.prems by (simp add: resolveNS_success_step)
  next
    case False
    then have "\<not> lookupSucceeds env (length (lookups (trace st'))) ns"
      using Cons.prems by simp
    with False show ?thesis
      using Cons.IH [OF e] by (simp add: resolveNS_fail_step)
  qed
qed

lemma resolveNS_first_lookup:
  "\<exists>evs. trace (snd (resolveNS env (ns # rest) st)) = trace st @ LookupHost (trimDot ns) # evs"
proof (cases "lookupSucceeds env (length (lookups (trace st))) ns")
  case True
  then show ?thesis by (simp add: resolveNS_success_step)
next
  case False
  have "\<exists>evs. trace (snd (resolveNS env xs s)) = trace s @ evs" for xs s
  proof (induction xs arbitrary: s)
    case Nil
    then show ?case by simp
  next
    case (Cons x xs)
    show ?case
    proof (cases "lookupSucceeds env (length (lookups (trace s))) x")
      case True
      then show ?thesis by (simp add: resolveNS_success_step)
    next
      case False
      from Cons.IH [of "emit (LookupHost (trimDot x)) s"] show ?thesis
        by (auto simp: resolveNS_fail_step [OF False])
    qed
  qed
  from this [of rest "emit (LookupHost (trimDot ns)) st"] show ?thesis
    by (auto simp: resolveNS_fail_step [OF False])
qed

subsection \<open>What each function leaves unchanged\<close>

lemma queryDNS_Ok:
  "queryDNS env domain server st = (Ok res, st') \<Longrightarrow>
     net env (length (dials (trace st))) (server @ '':53'') domain = Reply res"
  by (simp add: queryDNS_def Let_def split: exchange.splits if_splits)

lemma queryDNS_frame:
  "rootServers (snd (queryDNS env domain server st)) = rootServers st"
  "dials (trace (snd (queryDNS env domain server st))) = dials (trace st) @ [Dial (server @ '':53'')]"
  "lookups (trace (snd (queryDNS env domain server st))) = lookups (trace st)"
  "set (writes (trace (snd (queryDNS env domain server st))))
     \<subseteq> insert (Write (server @ '':53'') (queryMessage domain)) (set (writes (trace st)))"
  by (auto simp add: queryDNS_def Let_def split: exchange.splits)

lemma printAnswers_frame:
  "rootServers (snd (printAnswers domain rs st)) = rootServers st
   \<and> dials (trace (snd (printAnswers domain rs st))) = dials (trace st)
   \<and> lookups (trace (snd (printAnswers domain rs st))) = lookups (trace st)
   \<and> writes (trace (snd (printAnswers domain rs st))) = writes (trace st)"
  by (induction domain rs st rule: printAnswers.induct) (auto split: body.splits)

lemma getNextServers_frame:
  "rootServers (snd (getNextServers res st)) = rootServers st
   \<and> dials (trace (snd (getNextServers res st))) = dials (trace st)
   \<and> lookups (trace (snd (getNextServers res st))) = lookups (trace st)
   \<and> writes (trace (snd (getNextServers res st))) = writes (trace st)"
  by (auto simp: getNextServers_def Let_def lookups_def dials_def writes_def serverLine_def comp_def
        split: option.splits prod.splits)

lemma resolveNS_frame:
  "rootServers (snd (resolveNS env xs st)) = rootServers st
   \<and> dials (trace (snd (resolveNS env xs st))) = dials (trace st)
   \<and> writes (trace (snd (resolveNS env xs st))) = writes (trace st)"
proof (induction xs arbitrary: st)
  case Nil
  then show ?case by simp
next
  case (Cons x xs)
  show ?case
  proof (cases "lookupSucceeds env (length (lookups (trace st))) x")
    case True
    then show ?thesis by (simp add: resolveNS_success_step)
  next
    case False
    from Cons.IH [of "emit (LookupHost (trimDot x)) st"] show ?thesis
      by (simp add: resolveNS_fail_step [OF False])
  qed
qed

lemma iteration_frame:
  "rootServers (flowState (iteration env domain v st)) = rootServers st"
  "dials (trace (flowState (iteration env domain v st)))
     = dials (trace st) @ [Dial (serverIP v @ '':53'')]"
  "set (writes (trace (flowState (iteration env domain v st))))
     \<subseteq> insert (Write (serverIP v @ '':53'') (queryMessage domain)) (set (writes (trace st)))"
proof -
  let ?st1 = "emit (Print (SendingRequest (serverName v) (serverIP v))) st"
  obtain q st2 where q: "queryDNS env domain (serverIP v) ?st1 = (q, st2)"
    by (cases "queryDNS env domain (serverIP v) ?st1") auto
  have f: "rootServers st2 = rootServers st"
    "dials (trace st2) = dials (trace st) @ [Dial (serverIP v @ '':53'')]"
    "set (writes (trace st2)) \<subseteq> insert (Write (serverIP v @ '':53'') (queryMessage domain)) (set (writes (trace st)))"
    using queryDNS_frame [of env domain "serverIP v" ?st1] by (simp_all add: q)
  have "rootServers (flowState (iteration env domain v st)) = rootServers st
      \<and> dials (trace (flowState (iteration env domain v st))) = dials (trace st) @ [Dial (serverIP v @ '':53'')]
      \<and> set (writes (trace (flowState (iteration env domain v st))))
     \<subseteq> insert (Write (serverIP v @ '':53'') (queryMessage domain)) (set (writes (trace st)))"
  proof (cases q)
    case Panic
    with q f show ?thesis by (simp add: iteration_Panic)
  next
    case (Err e)
    with q f show ?thesis by (simp add: iteration_Err Let_def)
  next
    case (Ok res)
    show ?thesis
    proof (cases "authoritative res")
      case True
      with q Ok f printAnswers_frame [of domain "answers res" "emit (Print ReceivedAuthoritative) st2"]
      show ?thesis by (simp add: iteration_authoritative Let_def)
    next
      case False
      obtain o3 st3 where g: "getNextServers res st2 = (o3, st3)"
        by (cases "getNextServers res st2") auto
      with getNextServers_frame [of res st2] f
      have f3: "rootServers st3 = rootServers st"
        "dials (trace st3) = dials (trace st) @ [Dial (serverIP v @ '':53'')]"
        "set (writes (trace st3)) \<subseteq> insert (Write (serverIP v @ '':53'') (queryMessage domain)) (set (writes (trace st)))"
        by simp_all
      from q Ok False g f3 resolveNS_frame [of env _ st3]
      show ?thesis by (simp add: iteration_referral Let_def split: option.splits)
    qed
  qed
  then show "rootServers (flowState (iteration env domain v st)) = rootServers st"
  "dials (trace (flowState (iteration env domain v st)))
     = dials (trace st) @ [Dial (serverIP v @ '':53'')]"
  "set (writes (trace (flowState (iteration env domain v st))))
     \<subseteq> insert (Write (serverIP v @ '':53'') (queryMessage domain)) (set (writes (trace st)))"
    by simp_all
qed

lemma runFor_frame:
  "rootServers (flowState (runFor n env domain v st)) = rootServers st
   \<and> set (writes (trace (flowState (runFor n env domain v st))))
       \<subseteq> set (writes (trace st)) \<union> {Write a (queryMessage domain) | a. True}"
proof (induction n arbitrary: v st)
  case 0
  then show ?case by simp
next
  case (Suc n)
  show ?case
  proof (cases "iteration env domain v st")
    case (Continue v1 st1)
    with iteration_frame [of env domain v st] Suc.IH [of v1 st1] show ?thesis by auto
  next
    case (Return r1 st1)
    with iteration_frame [of env domain v st] show ?thesis by auto
  qed
qed


subsection \<open>The loop, iteration by iteration\<close>

lemma runFor_Return_lookupLoop:
  "runFor n env domain v st = Return r st' \<Longrightarrow> lookupLoop env domain v st = Some (r, st')"
proof (induction n arbitrary: v st)
  case 0
  then show ?case by simp
next
  case (Suc n)
  show ?case
  proof (cases "iteration env domain v st")
    case (Continue v1 st1)
    with Suc.prems have "runFor n env domain v1 st1 = Return r st'" by simp
    from Suc.IH [OF this] show ?thesis by (simp add: lookupLoop_Continue [OF Continue])
  next
    case (Return r1 st1)
    with Suc.prems show ?thesis by (simp add: lookupLoop_Return [OF Return])
  qed
qed

lemma lookupLoop_runFor:
  assumes "lookupLoop env domain v st = Some res"
  shows "\<exists>n. runFor n env domain v st = Return (fst res) (snd res)"
proof (rule lookupLoop.raw_induct
    [where P = "\<lambda>env domain v st res. \<exists>n. runFor n env domain v st = Return (fst res) (snd res)",
     OF _ assms])
  fix loop :: "env \<Rightarrow> string \<Rightarrow> vars \<Rightarrow> state \<Rightarrow> (outcome \<times> state) option"
  fix env domain v st res
  assume IH: "\<And>env domain v st res. loop env domain v st = Some res \<Longrightarrow>
                \<exists>n. runFor n env domain v st = Return (fst res) (snd res)"
  assume eq: "(case iteration env domain v st of
                 Continue v' st' \<Rightarrow> loop env domain v' st'
               | Return r st' \<Rightarrow> Some (r, st')) = Some res"
  show "\<exists>n. runFor n env domain v st = Return (fst res) (snd res)"
  proof (cases "iteration env domain v st")
    case (Continue v1 st1)
    with eq have "loop env domain v1 st1 = Some res" by simp
    from IH [OF this] obtain n where "runFor n env domain v1 st1 = Return (fst res) (snd res)" ..
    with Continue have "runFor (Suc n) env domain v st = Return (fst res) (snd res)" by simp
    then show ?thesis ..
  next
    case (Return r1 st1)
    with eq have "runFor (Suc 0) env domain v st = Return (fst res) (snd res)" by auto
    then show ?thesis ..
  qed
qed

lemma fold_emit_rootServers:
  "rootServers (fold (\<lambda>(name, ip). emit (Print (RootEntry name ip))) xs st) = rootServers st"
  by (induction xs arbitrary: st) (auto simp: emit_def)

lemma lookupLoop_rootServers:
  assumes "lookupLoop env domain v st = Some (r, st')"
  shows "rootServers st' = rootServers st"
proof -
  from lookupLoop_runFor [OF assms] obtain n where "runFor n env domain v st = Return r st'"
    by auto
  with runFor_frame [of n env domain v st] show ?thesis by simp
qed



subsection \<open>Picking a root server\<close>

lemma finite_untried [simp]: "finite (untried v st)"
  by (simp add: untried_def)

lemma isTried_upd [simp]: "isTried (tried(ip \<mapsto> True)) ip' = (isTried tried ip' \<or> ip' = ip)"
  by (auto simp: isTried_def)

lemma firstUntried_found:
  "snd (firstUntried xs tried) \<noteq> '''' \<Longrightarrow>
   firstUntried xs tried \<in> set xs \<and> \<not> isTried tried (snd (firstUntried xs tried))"
  by (induction xs tried rule: firstUntried.induct) auto

lemma firstUntried_none:
  "snd (firstUntried xs tried) = '''' \<Longrightarrow> '''' \<notin> snd ` set xs \<Longrightarrow>
   \<forall>p \<in> set xs. isTried tried (snd p)"
  by (induction xs tried rule: firstUntried.induct) (auto split: if_splits)

lemma rangeOrder_set:
  "rangesProperly env \<Longrightarrow> set (rangeOrder env t tbl) = set tbl"
  by (metis rangesProperly_def set_mset_mset)

lemma pick_found:
  assumes rp: "rangesProperly env"
    and p: "snd (pickNewRootServer env ((triedServers v)(serverIP v \<mapsto> True)) s) \<noteq> ''''"
    and rs: "rootServers s = rootServers st"
  shows "snd (pickNewRootServer env ((triedServers v)(serverIP v \<mapsto> True)) s) \<in> untried v st"
proof -
  let ?xs = "rangeOrder env (length (trace s)) (rootServers s)"
  let ?tr = "(triedServers v)(serverIP v \<mapsto> True)"
  from p have "firstUntried ?xs ?tr \<in> set ?xs \<and> \<not> isTried ?tr (snd (firstUntried ?xs ?tr))"
    by (intro firstUntried_found) (simp add: pickNewRootServer_def)
  then have "snd (firstUntried ?xs ?tr) \<in> snd ` set (rootServers st)"
    and "\<not> isTried ?tr (snd (firstUntried ?xs ?tr))"
    using rangeOrder_set [OF rp] rs by auto
  then show ?thesis
    by (simp add: untried_def pickNewRootServer_def)
qed

lemma pick_none:
  assumes rp: "rangesProperly env"
    and p: "snd (pickNewRootServer env ((triedServers v)(serverIP v \<mapsto> True)) s) = ''''"
    and rs: "rootServers s = rootServers st"
    and ne: "'''' \<notin> snd ` set (rootServers st)"
  shows "untried v st = {}"
proof -
  let ?xs = "rangeOrder env (length (trace s)) (rootServers s)"
  let ?tr = "(triedServers v)(serverIP v \<mapsto> True)"
  have "set ?xs = set (rootServers st)"
    using rangeOrder_set [OF rp] rs by simp
  moreover from p have "snd (firstUntried ?xs ?tr) = ''''"
    by (simp add: pickNewRootServer_def)
  ultimately have "\<forall>p \<in> set (rootServers st). isTried ?tr (snd p)"
    using firstUntried_none [of ?xs ?tr] ne by auto
  then show ?thesis
    by (auto simp: untried_def)
qed

lemma untried_step:
  assumes "triedServers v' = (triedServers v)(serverIP v \<mapsto> True)"
    and "rootServers st' = rootServers st"
  shows "untried v' st' = untried v st - {serverIP v'}"
  using assms by (auto simp: untried_def)

lemma iteration_Continue_cases:
  assumes "iteration env domain v st = Continue v' st'"
  obtains (failed) e st2 where
      "queryDNS env domain (serverIP v)
         (emit (Print (SendingRequest (serverName v) (serverIP v))) st) = (Err e, st2)"
    | (referred) res st2 where
      "queryDNS env domain (serverIP v)
         (emit (Print (SendingRequest (serverName v) (serverIP v))) st) = (Ok res, st2)"
      "\<not> authoritative res"
proof -
  let ?st1 = "emit (Print (SendingRequest (serverName v) (serverIP v))) st"
  obtain q st2 where q: "queryDNS env domain (serverIP v) ?st1 = (q, st2)"
    by (cases "queryDNS env domain (serverIP v) ?st1") auto
  show thesis
  proof (cases q)
    case Panic
    with q assms show ?thesis by (simp add: iteration_Panic)
  next
    case (Err e)
    with q failed show ?thesis by simp
  next
    case (Ok res)
    show ?thesis
    proof (cases "authoritative res")
      case True
      with q Ok assms show ?thesis by (simp add: iteration_authoritative Let_def)
    next
      case False
      with q Ok referred show ?thesis by simp
    qed
  qed
qed

lemma roots_facts:
  "distinct (map snd initialRootServers)" "'''' \<notin> snd ` set initialRootServers"
  "length initialRootServers = 13"
  by (simp_all add: initialRootServers_def)


subsection \<open>Failing queries and referrals\<close>

lemma failing_iteration:
  assumes rp: "rangesProperly env"
    and q: "queryDNS env domain (serverIP v)
         (emit (Print (SendingRequest (serverName v) (serverIP v))) st) = (Err e, st2)"
  shows "(\<exists>st'. iteration env domain v st = Return NoMoreRootServers st'
            \<and> ('''' \<notin> snd ` set (rootServers st) \<longrightarrow> untried v st = {}))
       \<or> (\<exists>v' st'. iteration env domain v st = Continue v' st'
            \<and> serverIP v' \<in> untried v st)"
proof -
  let ?tr = "(triedServers v)(serverIP v \<mapsto> True)"
  let ?st3 = "emit (Print (ErrorLine e)) st2"
  have rs: "rootServers ?st3 = rootServers st"
    using queryDNS_frame(1) [of env domain "serverIP v"
        "emit (Print (SendingRequest (serverName v) (serverIP v))) st"] q by simp
  show ?thesis
  proof (cases "snd (pickNewRootServer env ?tr ?st3) = ''''")
    case True
    with iteration_Err [OF q] pick_none [OF rp True rs] show ?thesis
      by (simp add: Let_def)
  next
    case False
    with iteration_Err [OF q] pick_found [OF rp False rs] show ?thesis
      by (simp add: Let_def)
  qed
qed

lemma all_fail_exhausts:
  assumes rp: "rangesProperly env"
    and fail: "\<forall>ip \<in> insert (serverIP v) (snd ` set (rootServers st)).
                 \<forall>s. \<exists>e s'. queryDNS env domain ip s = (Err e, s')"
    and ne: "'''' \<notin> snd ` set (rootServers st)"
  shows "\<exists>ips st'. lookupLoop env domain v st = Some (NoMoreRootServers, st')
           \<and> dials (trace st') = dials (trace st) @ map dialTo (serverIP v # ips)
           \<and> distinct ips \<and> set ips = untried v st"
  using fail ne
proof (induction "card (untried v st)" arbitrary: v st rule: less_induct)
  case less
  let ?st1 = "emit (Print (SendingRequest (serverName v) (serverIP v))) st"
  from less.prems(1) obtain e st2 where q: "queryDNS env domain (serverIP v) ?st1 = (Err e, st2)"
    by blast
  note fr = iteration_frame [of env domain v st]
  from failing_iteration [OF rp q]
  show ?case
  proof (elim disjE exE conjE)
    fix st'
    assume it: "iteration env domain v st = Return NoMoreRootServers st'"
      and u: "'''' \<notin> snd ` set (rootServers st) \<longrightarrow> untried v st = {}"
    from fr(2) it have "dials (trace st') = dials (trace st) @ map dialTo [serverIP v]"
      by (simp add: dialTo_def)
    moreover from u less.prems(2) have "untried v st = {}" by simp
    ultimately show ?thesis
      using lookupLoop_Return [OF it] by (intro exI [of _ "[]"] exI [of _ st']) simp
  next
    fix v' st'
    assume it: "iteration env domain v st = Continue v' st'"
      and m: "serverIP v' \<in> untried v st"
    from fr(1) it have rs: "rootServers st' = rootServers st" by simp
    from fr(2) it have d: "dials (trace st') = dials (trace st) @ [dialTo (serverIP v)]"
      by (simp add: dialTo_def)
    have tr: "triedServers v' = (triedServers v)(serverIP v \<mapsto> True)"
      using it by (rule iteration_tried)
    have u: "untried v' st' = untried v st - {serverIP v'}"
      using tr rs by (rule untried_step)
    have lt: "card (untried v' st') < card (untried v st)"
      unfolding u using m by (intro card_Diff1_less) simp_all
    from m have "serverIP v' \<in> snd ` set (rootServers st)" by (simp add: untried_def)
    with less.prems(1) rs
    have fail': "\<forall>ip \<in> insert (serverIP v') (snd ` set (rootServers st')).
                 \<forall>s. \<exists>e s'. queryDNS env domain ip s = (Err e, s')"
      by auto
    from less.prems(2) rs have ne': "'''' \<notin> snd ` set (rootServers st')" by simp
    from less.hyps [OF lt fail' ne'] obtain ips st''
      where r: "lookupLoop env domain v' st' = Some (NoMoreRootServers, st'')"
        and d': "dials (trace st'') = dials (trace st') @ map dialTo (serverIP v' # ips)"
        and di: "distinct ips" and se: "set ips = untried v' st'"
      by blast
    have "lookupLoop env domain v st = Some (NoMoreRootServers, st'')"
      using r by (simp add: lookupLoop_Continue [OF it])
    moreover have "dials (trace st'') = dials (trace st) @ map dialTo (serverIP v # serverIP v' # ips)"
      using d d' by simp
    moreover have "distinct (serverIP v' # ips)"
      using di se u by simp
    moreover have "set (serverIP v' # ips) = untried v st"
      using se u m by auto
    ultimately show ?thesis by blast
  qed
qed

subsection \<open>Descents of bounded depth\<close>

lemma referralAt_0:
  "referralAt env domain v st 0 =
     (case net env (length (dials (trace st))) (serverIP v @ '':53'') domain of
        Reply res \<Rightarrow> \<not> authoritative res | _ \<Rightarrow> False)"
  by (simp add: referralAt_def)

lemma referralAt_Suc:
  "iteration env domain v st = Continue v' st' \<Longrightarrow>
   referralAt env domain v st (Suc i) = referralAt env domain v' st' i"
  by (simp add: referralAt_def)

lemma depth_step:
  assumes "iteration env domain v st = Continue v' st'"
    and "\<forall>k. \<exists>j\<le>D. \<not> referralAt env domain v st (k + j)"
  shows "\<forall>k. \<exists>j\<le>D. \<not> referralAt env domain v' st' (k + j)"
proof
  fix k
  from assms(2) obtain j where "j \<le> D" "\<not> referralAt env domain v st (Suc k + j)" by blast
  then show "\<exists>j\<le>D. \<not> referralAt env domain v' st' (k + j)"
    using referralAt_Suc [OF assms(1)] by auto
qed

lemma runFor_Return_mono:
  "runFor n env domain v st = Return r s \<Longrightarrow> n \<le> m \<Longrightarrow> runFor m env domain v st = Return r s"
proof (induction n arbitrary: m v st)
  case 0
  then show ?case by simp
next
  case (Suc n)
  then obtain m' where m: "m = Suc m'" "n \<le> m'" by (cases m) auto
  show ?case
  proof (cases "iteration env domain v st")
    case (Continue v1 st1)
    with Suc.prems have "runFor n env domain v1 st1 = Return r s" by simp
    from Suc.IH [OF this m(2)] Continue m(1) show ?thesis by simp
  next
    case (Return r1 st1)
    with Suc.prems m(1) show ?thesis by simp
  qed
qed

lemma descent:
  assumes rp: "rangesProperly env"
    and outer: "\<And>v' st'. card (untried v' st') < u \<Longrightarrow>
                  \<forall>k. \<exists>j\<le>D. \<not> referralAt env domain v' st' (k + j) \<Longrightarrow>
                  \<exists>n r s. n \<le> B \<and> runFor n env domain v' st' = Return r s"
  shows "\<not> referralAt env domain v st j \<Longrightarrow>
         \<forall>k. \<exists>j\<le>D. \<not> referralAt env domain v st (k + j) \<Longrightarrow>
         card (untried v st) \<le> u \<Longrightarrow>
         \<exists>n r s. n \<le> Suc j + B \<and> runFor n env domain v st = Return r s"
proof (induction j arbitrary: v st)
  case 0
  show ?case
  proof (cases "iteration env domain v st")
    case (Return r st')
    then have "runFor (Suc 0) env domain v st = Return r st'" by simp
    then show ?thesis by (intro exI [of _ "Suc 0"]) auto
  next
    case (Continue v' st')
    note fr = iteration_frame [of env domain v st]
    from fr(1) Continue have rs: "rootServers st' = rootServers st" by simp
    have u: "untried v' st' = untried v st - {serverIP v'}"
      using iteration_tried [OF Continue] rs by (rule untried_step)
    from Continue show ?thesis
    proof (cases rule: iteration_Continue_cases)
      case (failed e st2)
      from failing_iteration [OF rp failed] Continue have "serverIP v' \<in> untried v st"
        by auto
      then have "card (untried v' st') < card (untried v st)"
        unfolding u by (intro card_Diff1_less) simp_all
      with 0(3) have "card (untried v' st') < u" by simp
      from outer [OF this depth_step [OF Continue 0(2)]]
      obtain n r s where "n \<le> B" "runFor n env domain v' st' = Return r s"
        by blast
      with Continue have "Suc n \<le> Suc 0 + B \<and> runFor (Suc n) env domain v st = Return r s"
        by simp
      then show ?thesis by blast
    next
      case (referred res st2)
      from queryDNS_Ok [OF referred(1)]
      have "net env (length (dials (trace st))) (serverIP v @ '':53'') domain = Reply res" by simp
      with 0(1) referred(2) show ?thesis by (simp add: referralAt_0)
    qed
  qed
next
  case (Suc j)
  show ?case
  proof (cases "iteration env domain v st")
    case (Return r st')
    then have "runFor (Suc 0) env domain v st = Return r st'" by simp
    then show ?thesis by (intro exI [of _ "Suc 0"]) auto
  next
    case (Continue v' st')
    note fr = iteration_frame [of env domain v st]
    from fr(1) Continue have rs: "rootServers st' = rootServers st" by simp
    have u: "untried v' st' = untried v st - {serverIP v'}"
      using iteration_tried [OF Continue] rs by (rule untried_step)
    note dp = depth_step [OF Continue Suc.prems(2)]
    from Continue show ?thesis
    proof (cases rule: iteration_Continue_cases)
      case (failed e st2)
      from failing_iteration [OF rp failed] Continue have "serverIP v' \<in> untried v st"
        by auto
      then have "card (untried v' st') < card (untried v st)"
        unfolding u by (intro card_Diff1_less) simp_all
      with Suc.prems(3) have "card (untried v' st') < u" by simp
      from outer [OF this dp] obtain n r s where "n \<le> B" "runFor n env domain v' st' = Return r s"
        by blast
      with Continue have "Suc n \<le> Suc (Suc j) + B \<and> runFor (Suc n) env domain v st = Return r s"
        by simp
      then show ?thesis by blast
    next
      case (referred res st2)
      have "card (untried v' st') \<le> card (untried v st)"
        unfolding u by (intro card_mono) auto
      with Suc.prems(3) have le: "card (untried v' st') \<le> u" by simp
      from Suc.prems(1) have "\<not> referralAt env domain v' st' j"
        by (simp add: referralAt_Suc [OF Continue])
      from Suc.IH [OF this dp le] obtain n r s
        where "n \<le> Suc j + B" "runFor n env domain v' st' = Return r s"
        by blast
      with Continue have "Suc n \<le> Suc (Suc j) + B \<and> runFor (Suc n) env domain v st = Return r s"
        by simp
      then show ?thesis by blast
    qed
  qed
qed

lemma bounded_depth_terminates:
  assumes rp: "rangesProperly env"
  shows "\<forall>k. \<exists>j\<le>D. \<not> referralAt env domain v st (k + j) \<Longrightarrow>
         card (untried v st) \<le> u \<Longrightarrow>
         \<exists>n r s. n \<le> Suc u * Suc D \<and> runFor n env domain v st = Return r s"
proof (induction u arbitrary: v st)
  case 0
  from 0(1) obtain j where j: "j \<le> D" "\<not> referralAt env domain v st (0 + j)"
    by blast
  then have nr: "\<not> referralAt env domain v st j" by simp
  have "\<exists>n r s. n \<le> Suc j + 0 \<and> runFor n env domain v st = Return r s"
    by (rule descent [OF rp _ nr 0(1) 0(2)]) simp
  with j(1) show ?case by (auto intro: le_trans)
next
  case (Suc u)
  from Suc.prems(1) obtain j where j: "j \<le> D" "\<not> referralAt env domain v st (0 + j)"
    by blast
  then have nr: "\<not> referralAt env domain v st j" by simp
  have "\<exists>n r s. n \<le> Suc j + Suc u * Suc D \<and> runFor n env domain v st = Return r s"
  proof (rule descent [OF rp _ nr Suc.prems])
    fix v' st'
    assume "card (untried v' st') < Suc u"
      and d: "\<forall>k. \<exists>j\<le>D. \<not> referralAt env domain v' st' (k + j)"
    then have "card (untried v' st') \<le> u" by simp
    with d show "\<exists>n r s. n \<le> Suc u * Suc D \<and> runFor n env domain v' st' = Return r s"
      by (rule Suc.IH)
  qed
  then obtain n r s where "n \<le> Suc j + Suc u * Suc D" "runFor n env domain v st = Return r s"
    by blast
  moreover from j(1) have "Suc j + Suc u * Suc D \<le> Suc (Suc u) * Suc D" by simp
  ultimately show ?case by (meson le_trans)
qed

section \<open>The tried-server set\<close>

text \<open>
  C3, as the code has it: the first statement of the loop body marks the current
  server's address as tried, before the query is sent. So whenever an iteration goes on
  to another one, after a failed query (fallback to a root server) as well as after a
  successful one (referral), the tried set is the one before the iteration with the
  address queried in this iteration added, and nothing else.
\<close>

theorem tried_grows:
  "iteration env domain v st = Continue v' st' \<Longrightarrow>
   triedServers v' = (triedServers v)(serverIP v \<mapsto> True)"
proof (cases "queryDNS env domain (serverIP v)
                (emit (Print (SendingRequest (serverName v) (serverIP v))) st)")
  case (Pair q st2)
  assume c: "iteration env domain v st = Continue v' st'"
  show ?thesis
  proof (cases q)
    case Panic
    with Pair c show ?thesis by (simp add: iteration_Panic)
  next
    case (Err e)
    with Pair c show ?thesis
      by (auto simp: iteration_Err Let_def split: if_splits)
  next
    case (Ok res)
    with Pair c show ?thesis
      by (cases "authoritative res")
         (auto simp: iteration_authoritative iteration_referral Let_def
               split: prod.splits option.splits if_splits)
  qed
qed

lemma looping_iteration:
  "iteration loopingEnv ''example.com.'' rootA initialState =
     Continue \<lparr>serverName = ''ns1.example.com.'', serverIP = ''10.0.0.1'',
               triedServers = [''198.41.0.4'' \<mapsto> True]\<rparr>
       \<lparr>rootServers = initialRootServers,
        trace = [Print (SendingRequest ''a.root-servers.net'' ''198.41.0.4''),
                 Dial ''198.41.0.4:53'', Write ''198.41.0.4:53'' (queryMessage ''example.com.''),
                 Read ''198.41.0.4:53'', Print (ReferralFor ''example.com.''),
                 Print (ServerNoIP ''ns1.example.com.''), LookupHost ''ns1.example.com'',
                 Print (ResolvedServer ''ns1.example.com.'' ''10.0.0.1'')]\<rparr>"
  by (simp add: loopingEnv_def quietEnv_def referralReply_def emptyReply_def nsRecord_def
        rootA_def initialState_def eval_defs resolveNS.simps(2))

theorem tried_grows_witness:
  "triedServers \<lparr>serverName = ''ns1.example.com.'', serverIP = ''10.0.0.1'',
               triedServers = [''198.41.0.4'' \<mapsto> True]\<rparr>
     = (triedServers rootA)(serverIP rootA \<mapsto> True)"
  using tried_grows [OF looping_iteration] .

text \<open>
  C3 as stated fails: the query to the root server succeeds (it is answered with a
  referral), the address \<open>198.41.0.4\<close> is not in the tried set before the iteration and
  is in it afterwards.
\<close>

theorem tried_changes_on_success:
  "fst (queryDNS loopingEnv ''example.com.'' (serverIP rootA)
          (emit (Print (SendingRequest (serverName rootA) (serverIP rootA))) initialState))
     = Ok referralReply
   \<and> \<not> isTried (triedServers rootA) ''198.41.0.4''
   \<and> (case iteration loopingEnv ''example.com.'' rootA initialState of
         Continue v' st' \<Rightarrow> isTried (triedServers v') ''198.41.0.4''
       | Return r st' \<Rightarrow> False)"
  by (simp add: loopingEnv_def quietEnv_def referralReply_def emptyReply_def nsRecord_def
        rootA_def initialState_def eval_defs resolveNS.simps(2))

section \<open>Authoritative responses\<close>

text \<open>
  C5: when the query of an iteration is answered by a response with the authoritative
  flag set, the lookup returns in this very iteration with the outcome \<open>Answered\<close>. After
  the events of the query the trace gains only printed lines: the heading and, in order,
  one line for every A and every AAAA record of the answer section, for the queried
  name. No dial, write, read or host lookup follows, whatever the authority and
  additional sections hold. The answer records are those of an unpacked message, whose
  bodies match their types.
\<close>

theorem authoritative_stops:
  assumes q: "queryDNS env domain (serverIP v)
                (emit (Print (SendingRequest (serverName v) (serverIP v))) st) = (Ok res, st2)"
    and aa: "authoritative res"
    and wt: "list_all wellTyped (answers res)"
  shows "lookupLoop env domain v st =
           Some (Answered,
                 st2\<lparr>trace := trace st2 @ Print ReceivedAuthoritative
                                 # concat (map (addressLines domain) (answers res))\<rparr>)"
proof -
  have "iteration env domain v st =
          Return Answered (st2\<lparr>trace := trace st2 @ Print ReceivedAuthoritative
                                 # concat (map (addressLines domain) (answers res))\<rparr>)"
    using iteration_authoritative [OF q aa] printAnswers_lines [OF wt]
    by (simp add: emit_def)
  then show ?thesis by (rule lookupLoop_Return)
qed

lemma answering_query:
  "queryDNS answeringEnv ''example.com.'' (serverIP rootA)
      (emit (Print (SendingRequest (serverName rootA) (serverIP rootA))) initialState) =
   (Ok answerReply,
    \<lparr>rootServers = initialRootServers,
     trace = [Print (SendingRequest ''a.root-servers.net'' ''198.41.0.4''),
              Dial ''198.41.0.4:53'', Write ''198.41.0.4:53'' (queryMessage ''example.com.''),
              Read ''198.41.0.4:53'']\<rparr>)"
  by (simp add: queryDNS_def answeringEnv_def quietEnv_def rootA_def initialState_def
        emit_def dials_def Let_def)

theorem authoritative_stops_witness:
  "lookupLoop answeringEnv ''example.com.'' rootA initialState =
     Some (Answered, \<lparr>rootServers = initialRootServers, trace =
       [Print (SendingRequest ''a.root-servers.net'' ''198.41.0.4''),
        Dial ''198.41.0.4:53'', Write ''198.41.0.4:53'' (queryMessage ''example.com.''),
        Read ''198.41.0.4:53'', Print ReceivedAuthoritative,
        Print (AnswerA ''example.com.'' (93, 184, 216, 34))]\<rparr>)"
proof -
  have wt: "list_all wellTyped (answers answerReply)"
    by (simp add: answerReply_def emptyReply_def aRecord_def TypeA_def TypeAAAA_def TypeNS_def)
  have aa: "authoritative answerReply"
    by (simp add: answerReply_def)
  show ?thesis
    using authoritative_stops [OF answering_query aa wt]
    by (simp add: answerReply_def emptyReply_def aRecord_def TypeA_def TypeAAAA_def)
qed

text \<open>
  C10: in an authoritative response the answer records whose type is neither A nor AAAA
  are skipped: printing the answers does exactly what it does on the answer section with
  those records removed (same lines, same termination), and when the answer section
  holds only such records, or none at all, the lookup still returns \<open>Answered\<close>, having
  printed the heading and no address.
\<close>

theorem other_answers_ignored:
  assumes q: "queryDNS env domain (serverIP v)
                (emit (Print (SendingRequest (serverName v) (serverIP v))) st) = (Ok res, st2)"
    and aa: "authoritative res"
  shows "printAnswers domain (answers res) s =
           printAnswers domain (filter isAddressType (answers res)) s
       \<and> ((\<forall>r \<in> set (answers res). \<not> isAddressType r) \<longrightarrow>
            lookupLoop env domain v st =
              Some (Answered, st2\<lparr>trace := trace st2 @ [Print ReceivedAuthoritative]\<rparr>))"
proof -
  have "lookupLoop env domain v st =
              Some (Answered, st2\<lparr>trace := trace st2 @ [Print ReceivedAuthoritative]\<rparr>)"
    if "\<forall>r \<in> set (answers res). \<not> isAddressType r"
  proof -
    have "iteration env domain v st =
            Return Answered (st2\<lparr>trace := trace st2 @ [Print ReceivedAuthoritative]\<rparr>)"
      using iteration_authoritative [OF q aa] printAnswers_skip [OF that]
      by (simp add: emit_def)
    then show ?thesis by (rule lookupLoop_Return)
  qed
  then show ?thesis using printAnswers_filter by blast
qed

lemma alias_query:
  "queryDNS aliasEnv ''www.example.com.'' (serverIP rootA)
      (emit (Print (SendingRequest (serverName rootA) (serverIP rootA))) initialState) =
   (Ok aliasReply,
    \<lparr>rootServers = initialRootServers,
     trace = [Print (SendingRequest ''a.root-servers.net'' ''198.41.0.4''),
              Dial ''198.41.0.4:53'', Write ''198.41.0.4:53'' (queryMessage ''www.example.com.''),
              Read ''198.41.0.4:53'']\<rparr>)"
  by (simp add: queryDNS_def aliasEnv_def quietEnv_def rootA_def initialState_def
        emit_def dials_def Let_def)

theorem other_answers_ignored_witness:
  "lookupLoop aliasEnv ''www.example.com.'' rootA initialState =
     Some (Answered, \<lparr>rootServers = initialRootServers, trace =
       [Print (SendingRequest ''a.root-servers.net'' ''198.41.0.4''),
        Dial ''198.41.0.4:53'', Write ''198.41.0.4:53'' (queryMessage ''www.example.com.''),
        Read ''198.41.0.4:53'', Print ReceivedAuthoritative]\<rparr>)"
proof -
  have aa: "authoritative aliasReply"
    by (simp add: aliasReply_def)
  have none: "\<forall>r \<in> set (answers aliasReply). \<not> isAddressType r"
    by (simp add: aliasReply_def emptyReply_def isAddressType_def TypeA_def TypeAAAA_def)
  show ?thesis
    using other_answers_ignored [OF alias_query aa] none by simp
qed

section \<open>Responses without a referral\<close>

text \<open>
  C6: when the query of an iteration is answered by a non-authoritative response whose
  authority section holds no record of type NS, \<^verbatim>\<open>getNextServers\<close> returns the empty
  list and the lookup returns in this very iteration with the outcome
  \<open>NoMoreNameServers\<close>, one of the \<open>Exhausted\<close> outcomes. After the events of the query
  the trace gains two printed lines only: no root server is picked, nothing is dialled
  and no host is looked up. The additional records are those of an unpacked message.
\<close>

theorem no_NS_exhausts:
  assumes q: "queryDNS env domain (serverIP v)
                (emit (Print (SendingRequest (serverName v) (serverIP v))) st) = (Ok res, st2)"
    and na: "\<not> authoritative res"
    and nons: "\<forall>r \<in> set (authorities res). rtype r \<noteq> TypeNS"
    and wt: "list_all wellTyped (additionals res)"
  shows "fst (getNextServers res st2) = Some []
       \<and> lookupLoop env domain v st =
           Some (NoMoreNameServers,
                 st2\<lparr>trace := trace st2 @ [Print (ReferralFor ''(unknown domain)''),
                                           Print NoMoreNameServersLine]\<rparr>)
       \<and> Exhausted NoMoreNameServers"
proof -
  obtain g where g: "collectGlue (additionals res) Map.empty = Some g"
    using collectGlue_wellTyped [OF wt] by blast
  have gn: "getNextServers res st2 =
          (Some [], st2\<lparr>trace := trace st2 @ [Print (ReferralFor ''(unknown domain)'')]\<rparr>)"
    by (simp add: getNextServers_def collectNS_none [OF nons] g)
  have "iteration env domain v st =
          Return NoMoreNameServers
            (st2\<lparr>trace := trace st2 @ [Print (ReferralFor ''(unknown domain)''),
                                      Print NoMoreNameServersLine]\<rparr>)"
    using iteration_referral [OF q na] by (simp add: gn emit_def)
  then have "lookupLoop env domain v st =
           Some (NoMoreNameServers,
                 st2\<lparr>trace := trace st2 @ [Print (ReferralFor ''(unknown domain)''),
                                           Print NoMoreNameServersLine]\<rparr>)"
    by (rule lookupLoop_Return)
  with gn show ?thesis by simp
qed

lemma noReferral_query:
  "queryDNS noReferralEnv ''example.com.'' (serverIP rootA)
      (emit (Print (SendingRequest (serverName rootA) (serverIP rootA))) initialState) =
   (Ok noReferralReply,
    \<lparr>rootServers = initialRootServers,
     trace = [Print (SendingRequest ''a.root-servers.net'' ''198.41.0.4''),
              Dial ''198.41.0.4:53'', Write ''198.41.0.4:53'' (queryMessage ''example.com.''),
              Read ''198.41.0.4:53'']\<rparr>)"
  by (simp add: queryDNS_def noReferralEnv_def quietEnv_def rootA_def initialState_def
        emit_def dials_def Let_def)

theorem no_NS_exhausts_witness:
  "lookupLoop noReferralEnv ''example.com.'' rootA initialState =
     Some (NoMoreNameServers,
           \<lparr>rootServers = initialRootServers,
            trace = [Print (SendingRequest ''a.root-servers.net'' ''198.41.0.4''),
                     Dial ''198.41.0.4:53'', Write ''198.41.0.4:53'' (queryMessage ''example.com.''),
                     Read ''198.41.0.4:53'', Print (ReferralFor ''(unknown domain)''),
                     Print NoMoreNameServersLine]\<rparr>)"
proof -
  have na: "\<not> authoritative noReferralReply"
    by (simp add: noReferralReply_def emptyReply_def)
  have nons: "\<forall>r \<in> set (authorities noReferralReply). rtype r \<noteq> TypeNS"
    by (simp add: noReferralReply_def emptyReply_def TypeNS_def)
  have wt: "list_all wellTyped (additionals noReferralReply)"
    by (simp add: noReferralReply_def emptyReply_def aRecord_def)
  show ?thesis
    using no_NS_exhausts [OF noReferral_query na nons wt] by simp
qed

section \<open>Resolving the nameserver names\<close>

text \<open>
  C7: \<^verbatim>\<open>resolveNS\<close> goes through the candidates in list order. If the lookups of the
  candidates in \<open>pre\<close> fail and the lookup of the next candidate \<open>ns\<close> succeeds, it returns
  \<open>ns\<close> paired with the first address of that lookup, having looked up the candidates of
  \<open>pre\<close> and \<open>ns\<close>, in order, and none of those after \<open>ns\<close>. If every lookup fails it
  returns the pair of empty strings (the program's "none"), having looked up every
  candidate. And, the addresses of the host resolver being non-empty strings, the
  returned address is empty exactly when every candidate's lookup fails.
\<close>

theorem resolveNS_first_success:
  "((\<forall>i<length pre. \<not> lookupSucceeds env (length (lookups (trace st)) + i) (pre ! i))
      \<and> lookupSucceeds env (length (lookups (trace st)) + length pre) ns \<longrightarrow>
     resolveNS env (pre @ ns # post) st =
       ((ns, firstAddress env (length (lookups (trace st)) + length pre) ns),
        st\<lparr>trace := trace st @ lookupEvents (pre @ [ns])
              @ [Print (ResolvedServer ns
                   (firstAddress env (length (lookups (trace st)) + length pre) ns))]\<rparr>))
   \<and> ((\<forall>i<length servers.
          \<not> lookupSucceeds env (length (lookups (trace st)) + i) (servers ! i)) \<longrightarrow>
        resolveNS env servers st =
          (('''', ''''), st\<lparr>trace := trace st @ lookupEvents servers\<rparr>))
   \<and> ((\<forall>k h a others. lookupHost env k h = Some (a # others) \<longrightarrow> a \<noteq> '''') \<longrightarrow>
        (snd (fst (resolveNS env servers st)) = '''') =
        (\<forall>i<length servers.
          \<not> lookupSucceeds env (length (lookups (trace st)) + i) (servers ! i)))"
proof (intro conjI impI)
  assume a: "(\<forall>i<length pre. \<not> lookupSucceeds env (length (lookups (trace st)) + i) (pre ! i))
      \<and> lookupSucceeds env (length (lookups (trace st)) + length pre) ns"
  let ?st = "st\<lparr>trace := trace st @ lookupEvents pre\<rparr>"
  have k: "length (lookups (trace ?st)) = length (lookups (trace st)) + length pre"
    by simp
  from a have s: "lookupSucceeds env (length (lookups (trace ?st))) ns"
    by (simp only: k)
  from a have "resolveNS env (pre @ ns # post) st = resolveNS env (ns # post) ?st"
    using resolveNS_after_failures by blast
  then show "resolveNS env (pre @ ns # post) st =
       ((ns, firstAddress env (length (lookups (trace st)) + length pre) ns),
        st\<lparr>trace := trace st @ lookupEvents (pre @ [ns])
              @ [Print (ResolvedServer ns
                   (firstAddress env (length (lookups (trace st)) + length pre) ns))]\<rparr>)"
    by (simp add: resolveNS_success_step [OF s] lookupEvents_snoc)
next
  assume "\<forall>i<length servers. \<not> lookupSucceeds env (length (lookups (trace st)) + i) (servers ! i)"
  then show "resolveNS env servers st =
      (('''', ''''), st\<lparr>trace := trace st @ lookupEvents servers\<rparr>)"
    by (rule resolveNS_all_fail)
next
  assume "\<forall>k h a others. lookupHost env k h = Some (a # others) \<longrightarrow> a \<noteq> ''''"
  then show "(snd (fst (resolveNS env servers st)) = '''') =
        (\<forall>i<length servers. \<not> lookupSucceeds env (length (lookups (trace st)) + i) (servers ! i))"
    by (rule resolveNS_empty_iff)
qed

theorem resolveNS_first_success_witness:
  "resolveNS hostsEnv [''ns1.example.com.'', ''ns2.example.com.'', ''ns3.example.com.'']
       initialState =
     ((''ns2.example.com.'', ''192.0.2.2''),
      \<lparr>rootServers = initialRootServers,
       trace = [LookupHost ''ns1.example.com'', LookupHost ''ns2.example.com'',
                Print (ResolvedServer ''ns2.example.com.'' ''192.0.2.2'')]\<rparr>)
   \<and> resolveNS hostsEnv [''ns1.example.com.'', ''ns3.example.com.''] initialState =
     (('''', ''''),
      \<lparr>rootServers = initialRootServers,
       trace = [LookupHost ''ns1.example.com'', LookupHost ''ns3.example.com'']\<rparr>)"
proof -
  have 1: "(\<forall>i<length [''ns1.example.com.'']. \<not> lookupSucceeds hostsEnv
             (length (lookups (trace initialState)) + i) ([''ns1.example.com.''] ! i))
       \<and> lookupSucceeds hostsEnv
             (length (lookups (trace initialState)) + length [''ns1.example.com.''])
             ''ns2.example.com.''"
    by (simp add: lookupSucceeds_def hostsEnv_def quietEnv_def trimDot_def)
  have 2: "\<forall>i<length [''ns1.example.com.'', ''ns3.example.com.'']. \<not> lookupSucceeds hostsEnv
             (length (lookups (trace initialState)) + i)
             ([''ns1.example.com.'', ''ns3.example.com.''] ! i)"
    by (simp add: lookupSucceeds_def hostsEnv_def quietEnv_def trimDot_def less_Suc_eq)
  have 3: "\<forall>k h a others. lookupHost hostsEnv k h = Some (a # others) \<longrightarrow> a \<noteq> ''''"
    by (simp add: hostsEnv_def quietEnv_def)
  have f: "firstAddress hostsEnv (Suc 0) ''ns2.example.com.'' = ''192.0.2.2''"
    by (simp add: firstAddress_def hostsEnv_def quietEnv_def trimDot_def)
  show ?thesis
    using resolveNS_first_success [of "[''ns1.example.com.'']" hostsEnv initialState
        "''ns2.example.com.''" "[''ns3.example.com.'']"
        "[''ns1.example.com.'', ''ns3.example.com.'']"] 1 2 3
    by (simp add: initialState_def lookupEvents_def trimDot_def lookups_def f)
qed

section \<open>Glue\<close>

text \<open>
  C1 as stated fails. The root server answers with a referral naming
  \<open>ns1.example.com.\<close>, for which the additional section carries the glue address
  \<open>10.0.0.1\<close>, and \<open>ns2.example.com.\<close>, which has no glue; the host resolver knows
  \<open>ns2.example.com\<close> only. The iteration looks up the glued candidate like any other
  (the event \<open>LookupHost ''ns1.example.com''\<close>), and goes on with the candidate
  without glue, \<open>ns2.example.com.\<close> at \<open>192.0.2.2\<close>; the glue address is printed
  and never queried.
\<close>

theorem glue_not_preferred:
  "iteration glueEnv ''example.com.'' rootA initialState =
     Continue \<lparr>serverName = ''ns2.example.com.'', serverIP = ''192.0.2.2'',
               triedServers = [''198.41.0.4'' \<mapsto> True]\<rparr>
       \<lparr>rootServers = initialRootServers,
        trace = [Print (SendingRequest ''a.root-servers.net'' ''198.41.0.4''),
                 Dial ''198.41.0.4:53'', Write ''198.41.0.4:53'' (queryMessage ''example.com.''),
                 Read ''198.41.0.4:53'', Print (ReferralFor ''example.com.''),
                 Print (ServerWithIP ''ns1.example.com.'' ''10.0.0.1''),
                 Print (ServerNoIP ''ns2.example.com.''),
                 LookupHost ''ns1.example.com'', LookupHost ''ns2.example.com'',
                 Print (ResolvedServer ''ns2.example.com.'' ''192.0.2.2'')]\<rparr>"
  by (simp add: glueEnv_def hostsEnv_def quietEnv_def glueReply_def emptyReply_def nsRecord_def
        aRecord_def rootA_def initialState_def eval_defs resolveNS.simps byteString_def digit_def)

text \<open>
  C1, as the code has it: \<^verbatim>\<open>getNextServers\<close> returns the names of the NS records of the
  authority section, in their order, and nothing of the additional section; glue only
  shows in the printed listing. So replacing the additional section of a referral by any
  other changes neither the candidates, nor the candidate \<^verbatim>\<open>resolveNS\<close> selects, nor
  the host lookups it makes; and the first candidate is looked up, glued or not.
\<close>

theorem referral_ignores_glue:
  assumes g1: "getNextServers res st = (Some servers, st1)"
    and g2: "getNextServers (res\<lparr>additionals := adds\<rparr>) st = (Some servers', st1')"
  shows "servers = nsTargets (authorities res) \<and> servers' = servers
       \<and> fst (resolveNS env servers' st1') = fst (resolveNS env servers st1)
       \<and> lookups (trace (snd (resolveNS env servers' st1')))
           = lookups (trace (snd (resolveNS env servers st1)))
       \<and> (servers = [] \<or>
            (\<exists>evs. trace (snd (resolveNS env servers st1))
                     = trace st1 @ LookupHost (trimDot (hd servers)) # evs))"
proof -
  note a = getNextServers_Some [OF g1] and b = getNextServers_Some [OF g2]
  from a(1) b(1) have s: "servers' = servers" by simp
  from a(3) b(3) have l: "lookups (trace st1') = lookups (trace st1)" by simp
  have "servers = [] \<or>
            (\<exists>evs. trace (snd (resolveNS env servers st1))
                     = trace st1 @ LookupHost (trimDot (hd servers)) # evs)"
    using resolveNS_first_lookup [of env "hd servers" "tl servers" st1]
    by (cases servers) auto
  then show ?thesis
    using a(1) s resolveNS_lookups_only [OF l, of env servers] by simp
qed


lemma glue_listing:
  "getNextServers glueReply initialState =
     (Some [''ns1.example.com.'', ''ns2.example.com.''],
      \<lparr>rootServers = initialRootServers,
       trace = [Print (ReferralFor ''example.com.''),
                Print (ServerWithIP ''ns1.example.com.'' ''10.0.0.1''),
                Print (ServerNoIP ''ns2.example.com.'')]\<rparr>)"
  by (simp add: glueReply_def emptyReply_def nsRecord_def aRecord_def initialState_def
        eval_defs byteString_def digit_def)

lemma glueless_listing:
  "getNextServers (glueReply\<lparr>additionals := []\<rparr>) initialState =
     (Some [''ns1.example.com.'', ''ns2.example.com.''],
      \<lparr>rootServers = initialRootServers,
       trace = [Print (ReferralFor ''example.com.''),
                Print (ServerNoIP ''ns1.example.com.''),
                Print (ServerNoIP ''ns2.example.com.'')]\<rparr>)"
  by (simp add: glueReply_def emptyReply_def nsRecord_def aRecord_def initialState_def
        eval_defs)

theorem referral_ignores_glue_witness:
  "fst (resolveNS glueEnv [''ns1.example.com.'', ''ns2.example.com.'']
         \<lparr>rootServers = initialRootServers,
          trace = [Print (ReferralFor ''example.com.''),
                   Print (ServerNoIP ''ns1.example.com.''),
                   Print (ServerNoIP ''ns2.example.com.'')]\<rparr>)
   = fst (resolveNS glueEnv [''ns1.example.com.'', ''ns2.example.com.'']
         \<lparr>rootServers = initialRootServers,
          trace = [Print (ReferralFor ''example.com.''),
                   Print (ServerWithIP ''ns1.example.com.'' ''10.0.0.1''),
                   Print (ServerNoIP ''ns2.example.com.'')]\<rparr>)"
  using referral_ignores_glue [OF glue_listing glueless_listing, of glueEnv] by blast

section \<open>The query message\<close>

text \<open>
  C8: every message written to a connection in the course of a lookup, after any number
  \<open>n\<close> of iterations and whether or not the lookup has returned by then, holds exactly
  one question, for the looked-up domain with type A and class INET, carries the
  transaction identifier 1 and has the recursion-desired flag cleared.
\<close>

theorem queries_have_fixed_shape:
  assumes sent: "Write a m \<in> set (trace (flowState (runFor n env domain v st)))"
    and new: "Write a m \<notin> set (trace st)"
  shows "questions m = [\<lparr>qname = domain, qtype = TypeA, qclass = ClassINET\<rparr>]
       \<and> msgID m = 1 \<and> \<not> recursionDesired m"
proof -
  from sent have "Write a m \<in> set (writes (trace (flowState (runFor n env domain v st))))"
    using writes_mem by blast
  with runFor_frame [of n env domain v st]
  have "Write a m \<in> set (writes (trace st)) \<union> {Write a (queryMessage domain) | a. True}"
    by blast
  with new writes_mem [of a m "trace st"] have "m = queryMessage domain"
    by blast
  then show ?thesis by (simp add: queryMessage_def)
qed



lemma looping_two_iterations:
  "trace (flowState (runFor 2 loopingEnv ''example.com.'' rootA initialState)) =
     [Print (SendingRequest ''a.root-servers.net'' ''198.41.0.4''),
      Dial ''198.41.0.4:53'', Write ''198.41.0.4:53'' (queryMessage ''example.com.''),
      Read ''198.41.0.4:53'', Print (ReferralFor ''example.com.''),
      Print (ServerNoIP ''ns1.example.com.''), LookupHost ''ns1.example.com'',
      Print (ResolvedServer ''ns1.example.com.'' ''10.0.0.1''),
      Print (SendingRequest ''ns1.example.com.'' ''10.0.0.1''),
      Dial ''10.0.0.1:53'', Write ''10.0.0.1:53'' (queryMessage ''example.com.''),
      Read ''10.0.0.1:53'', Print (ReferralFor ''example.com.''),
      Print (ServerNoIP ''ns1.example.com.''), LookupHost ''ns1.example.com'',
      Print (ResolvedServer ''ns1.example.com.'' ''10.0.0.1'')]"
  by (simp add: numeral_2_eq_2 loopingEnv_def quietEnv_def referralReply_def emptyReply_def
        nsRecord_def rootA_def initialState_def eval_defs resolveNS.simps(2))


theorem queries_have_fixed_shape_witness:
  "Write ''10.0.0.1:53'' (queryMessage ''example.com.'')
     \<in> set (trace (flowState (runFor 2 loopingEnv ''example.com.'' rootA initialState)))
   \<and> questions (queryMessage ''example.com.'')
       = [\<lparr>qname = ''example.com.'', qtype = TypeA, qclass = ClassINET\<rparr>]
   \<and> msgID (queryMessage ''example.com.'') = 1
   \<and> \<not> recursionDesired (queryMessage ''example.com.'')"
proof -
  have sent: "Write ''10.0.0.1:53'' (queryMessage ''example.com.'')
     \<in> set (trace (flowState (runFor 2 loopingEnv ''example.com.'' rootA initialState)))"
    by (simp add: looping_two_iterations)
  have new: "Write ''10.0.0.1:53'' (queryMessage ''example.com.'') \<notin> set (trace initialState)"
    by (simp add: initialState_def)
  from queries_have_fixed_shape [OF sent new] sent show ?thesis by simp
qed

section \<open>The root-server table\<close>

text \<open>
  C9: no operation of the resolver changes the table \<^verbatim>\<open>rootServers\<close>: not a query,
  not the handling of a referral, not the resolution of a nameserver name, not the
  printing of answers, not a whole iteration with its fallback pick, not any number of
  iterations, not a lookup that returns, and not \<^verbatim>\<open>main\<close> with its bootstrap
  selection. (\<^verbatim>\<open>pickNewRootServer\<close> only reads the state.)
\<close>

theorem rootServers_never_mutated:
  "rootServers (snd (queryDNS env domain server st)) = rootServers st
   \<and> rootServers (snd (getNextServers res st)) = rootServers st
   \<and> rootServers (snd (resolveNS env servers st)) = rootServers st
   \<and> rootServers (snd (printAnswers domain rs st)) = rootServers st
   \<and> rootServers (flowState (iteration env domain v st)) = rootServers st
   \<and> rootServers (flowState (runFor n env domain v st)) = rootServers st
   \<and> (\<forall>r st'. recursiveLookup env domain firstServerName firstServerIP st = Some (r, st')
         \<longrightarrow> rootServers st' = rootServers st)
   \<and> (\<forall>r st'. main env st = Some (r, st') \<longrightarrow> rootServers st' = rootServers st)"
proof (intro conjI allI impI)
  show "rootServers (snd (queryDNS env domain server st)) = rootServers st"
    by (rule queryDNS_frame(1))
  show "rootServers (snd (getNextServers res st)) = rootServers st"
    by (simp add: getNextServers_frame)
  show "rootServers (snd (resolveNS env servers st)) = rootServers st"
    by (simp add: resolveNS_frame)
  show "rootServers (snd (printAnswers domain rs st)) = rootServers st"
    by (simp add: printAnswers_frame)
  show "rootServers (flowState (iteration env domain v st)) = rootServers st"
    by (rule iteration_frame(1))
  show "rootServers (flowState (runFor n env domain v st)) = rootServers st"
    by (simp add: runFor_frame)
next
  fix r st'
  assume "recursiveLookup env domain firstServerName firstServerIP st = Some (r, st')"
  then show "rootServers st' = rootServers st"
    unfolding recursiveLookup_def by (rule lookupLoop_rootServers)
next
  fix r st'
  assume m: "main env st = Some (r, st')"
  let ?st1 = "emit (Print LoadingRootServers) st"
  let ?st2 = "fold (\<lambda>(name, ip). emit (Print (RootEntry name ip)))
                 (rangeOrder env (length (trace ?st1)) (rootServers ?st1)) ?st1"
  have r2: "rootServers ?st2 = rootServers st"
    by (simp add: fold_emit_rootServers)
  show "rootServers st' = rootServers st"
  proof (cases "length (map fst (rangeOrder env (length (trace ?st2)) (rootServers ?st2))) = 0")
    case True
    with m have "st' = ?st2" by (simp add: main_def Let_def)
    with r2 show ?thesis by simp
  next
    case False
    with m obtain name ip where
      "recursiveLookup env ''example.com.'' name ip (emit (Print (StartingLookup ''example.com.'')) ?st2)
         = Some (r, st')"
      by (simp add: main_def Let_def)
    then have "rootServers st' = rootServers (emit (Print (StartingLookup ''example.com.'')) ?st2)"
      unfolding recursiveLookup_def by (rule lookupLoop_rootServers)
    with r2 show ?thesis by simp
  qed
qed





lemma main_answering:
  "main answeringEnv initialState =
     lookupLoop answeringEnv ''example.com.'' rootA
       \<lparr>rootServers = initialRootServers,
        trace = Print LoadingRootServers # map (\<lambda>(name, ip). Print (RootEntry name ip)) initialRootServers
                @ [Print (StartingLookup ''example.com.'')]\<rparr>"
  by (simp add: main_def Let_def answeringEnv_def quietEnv_def initialState_def recursiveLookup_def
      mapIndex_def rootA_def emit_def initialRootServers_def)


theorem rootServers_never_mutated_witness:
  "\<exists>r st'. main answeringEnv initialState = Some (r, st')
            \<and> rootServers st' = rootServers initialState"
proof -
  let ?st = "\<lparr>rootServers = initialRootServers,
        trace = Print LoadingRootServers
                # map (\<lambda>(name, ip). Print (RootEntry name ip)) initialRootServers
                @ [Print (StartingLookup ''example.com.'')]\<rparr>"
  have "\<exists>st'. iteration answeringEnv ''example.com.'' rootA ?st = Return Answered st'"
    by (simp add: answeringEnv_def quietEnv_def answerReply_def emptyReply_def aRecord_def
          nsRecord_def rootA_def eval_defs)
  then obtain st' where "iteration answeringEnv ''example.com.'' rootA ?st = Return Answered st'" ..
  then have "main answeringEnv initialState = Some (Answered, st')"
    by (simp add: main_answering lookupLoop_Return)
  with rootServers_never_mutated [where env = answeringEnv and st = initialState]
  show ?thesis by blast
qed

section \<open>Fallback and termination\<close>

text \<open>
  C4: let the table be the one of the program, let the lookup start at one of its
  servers, and let the query fail (return an error) for every address of the table. Then
  the lookup returns with the outcome \<open>NoMoreRootServers\<close>, one of the \<open>Exhausted\<close>
  outcomes, and the dials it has made are to the addresses \<open>ips\<close>, which are pairwise
  distinct, are exactly the addresses of the table, and are as many as the table has
  entries.
\<close>

theorem fallback_exhaustion:
  assumes rp: "rangesProperly env"
    and tbl: "rootServers st = initialRootServers"
    and first: "(firstServerName, firstServerIP) \<in> set initialRootServers"
    and fail: "\<forall>ip \<in> snd ` set initialRootServers.
                 \<forall>s. \<exists>e s'. queryDNS env domain ip s = (Err e, s')"
  shows "\<exists>ips st'.
           recursiveLookup env domain firstServerName firstServerIP st
             = Some (NoMoreRootServers, st')
         \<and> Exhausted NoMoreRootServers
         \<and> dials (trace st') = dials (trace st) @ map dialTo ips
         \<and> distinct ips \<and> set ips = snd ` set initialRootServers
         \<and> length ips = length initialRootServers"
proof -
  let ?v = "\<lparr>serverName = firstServerName, serverIP = firstServerIP, triedServers = Map.empty\<rparr>"
  from first have fin: "firstServerIP \<in> snd ` set initialRootServers" by force
  have u: "untried ?v st = snd ` set initialRootServers - {firstServerIP}"
    by (auto simp: untried_def tbl isTried_def)
  have fail': "\<forall>ip \<in> insert (serverIP ?v) (snd ` set (rootServers st)).
                 \<forall>s. \<exists>e s'. queryDNS env domain ip s = (Err e, s')"
    using fail fin by (auto simp: tbl)
  have ne: "'''' \<notin> snd ` set (rootServers st)"
    using roots_facts(2) by (simp add: tbl)
  from all_fail_exhausts [OF rp fail' ne] obtain ips st'
    where r: "lookupLoop env domain ?v st = Some (NoMoreRootServers, st')"
      and d: "dials (trace st') = dials (trace st) @ map dialTo (serverIP ?v # ips)"
      and di: "distinct ips" and se: "set ips = untried ?v st"
    by blast
  have dist: "distinct (firstServerIP # ips)"
    using di se u by simp
  have set: "set (firstServerIP # ips) = snd ` set initialRootServers"
    using se u fin by auto
  have "length (firstServerIP # ips) = card (set (firstServerIP # ips))"
    using dist by (metis distinct_card)
  also have "\<dots> = card (set (map snd initialRootServers))"
    using set by simp
  also have "\<dots> = length initialRootServers"
    using roots_facts(1) by (metis distinct_card length_map)
  finally have len: "length (firstServerIP # ips) = length initialRootServers" .
  from r d dist set len show ?thesis
    unfolding recursiveLookup_def
    by (intro exI [of _ "firstServerIP # ips"] exI [of _ st']) simp
qed

theorem fallback_exhaustion_witness:
  "\<exists>ips st'. recursiveLookup quietEnv ''example.com.'' ''a.root-servers.net'' ''198.41.0.4''
                initialState = Some (NoMoreRootServers, st')
            \<and> dials (trace st') = map dialTo ips \<and> distinct ips \<and> length ips = 13"
proof -
  have rp: "rangesProperly quietEnv"
    by (simp add: rangesProperly_def quietEnv_def)
  have tbl: "rootServers initialState = initialRootServers"
    by (simp add: initialState_def)
  have first: "(''a.root-servers.net'', ''198.41.0.4'') \<in> set initialRootServers"
    by (simp add: initialRootServers_def)
  have fail: "\<forall>ip \<in> snd ` set initialRootServers.
                 \<forall>s. \<exists>e s'. queryDNS quietEnv ''example.com.'' ip s = (Err e, s')"
    by (simp add: queryDNS_def quietEnv_def Let_def)
  from fallback_exhaustion [OF rp tbl first fail] obtain ips st'
    where "recursiveLookup quietEnv ''example.com.'' ''a.root-servers.net'' ''198.41.0.4''
                initialState = Some (NoMoreRootServers, st')"
      and "dials (trace st') = dials (trace initialState) @ map dialTo ips"
      and "distinct ips" and "length ips = length initialRootServers"
    by blast
  then show ?thesis
    by (intro exI [of _ ips] exI [of _ st']) (simp add: initialState_def roots_facts(3))
qed

text \<open>
  C2, as the code has it: the loop has no bound on the depth of referrals and detects no
  repetition; what bounds a lookup is the network. If among any \<open>D + 1\<close> consecutive
  queries that the run makes at least one is not answered by a referral (a
  non-authoritative response), so that no descent from a root server is deeper than \<open>D\<close>
  referrals, then a lookup started at a root server returns within (number of root
  servers) times \<open>D + 1\<close> iterations, whatever names and addresses the referrals repeat.
  The condition is on the queries of the run only: what the network would answer to
  other servers at that moment does not matter.
\<close>

theorem lookup_terminates_within_depth:
  assumes rp: "rangesProperly env"
    and first: "(firstServerName, firstServerIP) \<in> set (rootServers st)"
    and depth: "\<forall>k. \<exists>j\<le>D. \<not> referralAt env domain
                  \<lparr>serverName = firstServerName, serverIP = firstServerIP,
                   triedServers = Map.empty\<rparr> st (k + j)"
  shows "\<exists>n r st'. n \<le> length (rootServers st) * Suc D
           \<and> runFor n env domain
                \<lparr>serverName = firstServerName, serverIP = firstServerIP,
                 triedServers = Map.empty\<rparr> st = Return r st'
           \<and> recursiveLookup env domain firstServerName firstServerIP st = Some (r, st')"
proof -
  let ?v = "\<lparr>serverName = firstServerName, serverIP = firstServerIP, triedServers = Map.empty\<rparr>"
  let ?ips = "snd ` set (rootServers st)"
  from first have fin': "firstServerIP \<in> ?ips" by force
  have "untried ?v st \<subseteq> ?ips - {firstServerIP}"
    by (auto simp: untried_def)
  then have "card (untried ?v st) \<le> card (?ips - {firstServerIP})"
    by (intro card_mono) auto
  also have "\<dots> = card ?ips - 1"
    using fin' by simp
  also have "\<dots> \<le> length (rootServers st) - 1"
    by (metis card_length diff_le_mono length_map set_map)
  finally have cu: "card (untried ?v st) \<le> length (rootServers st) - 1" .
  have pos: "0 < length (rootServers st)"
    using first by (cases "rootServers st") auto
  from bounded_depth_terminates [OF rp depth cu] obtain n r st'
    where n: "n \<le> Suc (length (rootServers st) - 1) * Suc D"
      and run: "runFor n env domain ?v st = Return r st'"
    by blast
  from pos have "Suc (length (rootServers st) - 1) = length (rootServers st)" by simp
  with n have "n \<le> length (rootServers st) * Suc D" by (simp only:)
  moreover from run have "recursiveLookup env domain firstServerName firstServerIP st = Some (r, st')"
    unfolding recursiveLookup_def by (rule runFor_Return_lookupLoop)
  ultimately show ?thesis using run by blast
qed

lemma delegating_first:
  "iteration delegatingEnv ''example.com.'' rootA initialState = Continue atNS1 afterReferral"
  by (simp add: delegatingEnv_def quietEnv_def referralReply_def emptyReply_def nsRecord_def
        rootA_def initialState_def eval_defs resolveNS.simps(2) atNS1_def afterReferral_def)

lemma delegating_second:
  "\<exists>s. iteration delegatingEnv ''example.com.'' atNS1 afterReferral = Return Answered s"
  by (simp add: delegatingEnv_def quietEnv_def answerReply_def emptyReply_def nsRecord_def
        aRecord_def eval_defs atNS1_def afterReferral_def)

lemma delegating_referral_first:
  "referralAt delegatingEnv ''example.com.'' rootA initialState 0"
  by (simp add: referralAt_def delegatingEnv_def quietEnv_def referralReply_def emptyReply_def
        nsRecord_def rootA_def)

lemma delegating_answer_second:
  "\<not> referralAt delegatingEnv ''example.com.'' rootA initialState (Suc 0)"
  by (simp add: referralAt_def delegating_first)
     (simp add: delegatingEnv_def quietEnv_def answerReply_def atNS1_def)

lemma delegating_depth:
  "\<forall>k. \<exists>j\<le>1. \<not> referralAt delegatingEnv ''example.com.'' rootA initialState (k + j)"
proof
  fix k
  have "\<not> referralAt delegatingEnv ''example.com.'' rootA initialState (k + 1)"
  proof (cases k)
    case 0
    with delegating_answer_second show ?thesis by simp
  next
    case (Suc k')
    from delegating_second obtain s
      where "iteration delegatingEnv ''example.com.'' atNS1 afterReferral = Return Answered s" ..
    then have "runFor (Suc (Suc 0)) delegatingEnv ''example.com.'' rootA initialState
                 = Return Answered s"
      by (simp add: delegating_first)
    from runFor_Return_mono [OF this, of "k + 1"] Suc
    have "runFor (k + 1) delegatingEnv ''example.com.'' rootA initialState = Return Answered s"
      by simp
    then show ?thesis by (simp add: referralAt_def)
  qed
  then show "\<exists>j\<le>1. \<not> referralAt delegatingEnv ''example.com.'' rootA initialState (k + j)"
    by blast
qed


theorem lookup_terminates_within_depth_witness:
  "referralAt delegatingEnv ''example.com.'' rootA initialState 0
   \<and> (\<exists>n r st'. n \<le> 26
     \<and> runFor n delegatingEnv ''example.com.'' rootA initialState = Return r st'
     \<and> recursiveLookup delegatingEnv ''example.com.'' ''a.root-servers.net'' ''198.41.0.4''
         initialState = Some (r, st'))"
proof -
  have rp: "rangesProperly delegatingEnv"
    by (simp add: rangesProperly_def delegatingEnv_def quietEnv_def)
  have first: "(''a.root-servers.net'', ''198.41.0.4'') \<in> set (rootServers initialState)"
    by (simp add: initialState_def initialRootServers_def)
  have depth: "\<forall>k. \<exists>j\<le>1. \<not> referralAt delegatingEnv ''example.com.''
                  \<lparr>serverName = ''a.root-servers.net'', serverIP = ''198.41.0.4'',
                   triedServers = Map.empty\<rparr> initialState (k + j)"
    using delegating_depth unfolding rootA_def .
  have len: "length (rootServers initialState) * Suc 1 = 26"
    by (simp add: initialState_def roots_facts(3))
  from lookup_terminates_within_depth [OF rp first depth]
  have "\<exists>n r st'. n \<le> 26
     \<and> runFor n delegatingEnv ''example.com.'' rootA initialState = Return r st'
     \<and> recursiveLookup delegatingEnv ''example.com.'' ''a.root-servers.net'' ''198.41.0.4''
         initialState = Some (r, st')"
    by (simp only: len rootA_def)
  with delegating_referral_first show ?thesis by blast
qed

lemma looping_continues:
  "\<exists>v' st'. iteration loopingEnv ''example.com.'' v st = Continue v' st'"
  by (simp add: loopingEnv_def quietEnv_def referralReply_def emptyReply_def nsRecord_def
        eval_defs resolveNS.simps(2))

lemma looping_never_returns:
  assumes "lookupLoop env domain v st = Some res"
  shows "\<not> (env = loopingEnv \<and> domain = ''example.com.'')"
proof (rule lookupLoop.raw_induct
    [where P = "\<lambda>env domain v st res. \<not> (env = loopingEnv \<and> domain = ''example.com.'')",
     OF _ assms])
  fix loop :: "env \<Rightarrow> string \<Rightarrow> vars \<Rightarrow> state \<Rightarrow> (outcome \<times> state) option"
  fix env domain v st res
  assume IH: "\<And>env domain v st res. loop env domain v st = Some res \<Longrightarrow>
                \<not> (env = loopingEnv \<and> domain = ''example.com.'')"
  assume eq: "(case iteration env domain v st of
                 Continue v' st' \<Rightarrow> loop env domain v' st'
               | Return r st' \<Rightarrow> Some (r, st')) = Some res"
  show "\<not> (env = loopingEnv \<and> domain = ''example.com.'')"
  proof
    assume a: "env = loopingEnv \<and> domain = ''example.com.''"
    with looping_continues [of v st] obtain v' st'
      where "iteration env domain v st = Continue v' st'" by blast
    with eq have "loop env domain v' st' = Some res" by simp
    from IH [OF this] a show False by blast
  qed
qed

text \<open>
  C2 as stated fails: when every server answers with the same referral and the name of
  the nameserver always resolves, every iteration continues with another one and the
  lookup never returns.
\<close>

theorem repeating_referral_loops_forever:
  "recursiveLookup loopingEnv ''example.com.'' ''a.root-servers.net'' ''198.41.0.4''
     initialState = None"
proof (cases "recursiveLookup loopingEnv ''example.com.'' ''a.root-servers.net'' ''198.41.0.4''
     initialState")
  case None
  then show ?thesis .
next
  case (Some res)
  then show ?thesis
    unfolding recursiveLookup_def using looping_never_returns by blast
qed


end
